theory Spec2Isabelle
  imports Main "HOL-Library.Word"
begin

section \<open>Plan nodes\<close>

text \<open>
  The builder in \<^verbatim>\<open>src/executor/Executor.cpp\<close> reads a plan only through the accessors
  \<^verbatim>\<open>id()\<close>, \<^verbatim>\<open>kind()\<close>, \<^verbatim>\<open>dependencies()\<close>, \<^verbatim>\<open>dep(i)\<close>, \<^verbatim>\<open>outputVar()\<close>, \<^verbatim>\<open>then()\<close>,
  \<^verbatim>\<open>otherwise()\<close> and \<^verbatim>\<open>body()\<close>; it never compares two node pointers, the memoization
  map being keyed by \<^verbatim>\<open>node->id()\<close>. A plan is therefore represented by its unfolding
  from the root: a node shared by two parents is the same term under both. A pointer
  to a node is a \<open>PlanNode option\<close>, \<open>None\<close> being the null pointer.

  The classes \<^verbatim>\<open>PlanNode\<close>, \<^verbatim>\<open>Select\<close> and \<^verbatim>\<open>Loop\<close> are declared outside the
  source file. The fields of the two subclasses that the builder reads
  (\<^verbatim>\<open>then()\<close>, \<^verbatim>\<open>otherwise()\<close>, \<^verbatim>\<open>body()\<close>) are carried by every node and are only read
  under the kind tests of the source.
\<close>

type_synonym int64 = "64 word"

text \<open>\<^verbatim>\<open>PlanNode::Kind\<close>: the enumerators the \<^verbatim>\<open>switch\<close> of the kind dispatch lists.\<close>

datatype (plugins only: code) Kind =
    kPassThrough | kAggregate | kSort | kFilter | kGetEdges | kGetVertices |
    kGetNeighbors | kLimit | kProject | kIndexScan | kStart | kUnion | kIntersect |
    kMinus | kLoop | kSelect | kDedup | kSwitchSpace | kCreateSpace | kDescSpace |
    kShowSpaces | kDropSpace | kShowCreateSpace | kCreateTag | kDescTag | kAlterTag |
    kCreateEdge | kDescEdge | kAlterEdge | kShowTags | kShowEdges | kDropTag |
    kDropEdge | kShowCreateTag | kShowCreateEdge | kInsertVertices | kInsertEdges |
    kDataCollect | kCreateSnapshot | kDropSnapshot | kShowSnapshots | kDataJoin |
    kDeleteVertices | kDeleteEdges | kUpdateVertex | kUpdateEdge | kCreateUser |
    kDropUser | kUpdateUser | kGrantRole | kRevokeRole | kChangePassword |
    kListUserRoles | kListUsers | kListRoles | kBalanceLeaders | kBalance |
    kStopBalance | kShowBalance | kShowConfigs | kSetConfig | kGetConfig | kSubmitJob |
    kShowHosts | kShowParts | kShowCharset | kShowCollation | kUnknown

datatype PlanNode =
  PlanNode (id_node: int64) (kind: Kind) (dependencies: "PlanNode option list")
    (outputVar: string) (then_node: "PlanNode option") (otherwise: "PlanNode option")
    (body: "PlanNode option")

section \<open>Results, execution context, profiling\<close>

text \<open>
  Modelled from the spec: \<^verbatim>\<open>Iterator::Kind\<close> is declared outside the source file, which
  names only \<^verbatim>\<open>kDefault\<close>; the spec distinguishes the default sequential order from a
  specialized order.
\<close>

datatype IteratorKind = kDefault | kSpecialized

text \<open>
  Modelled from the spec: \<^verbatim>\<open>Result\<close> is declared outside the source file; the spec
  describes it as an opaque computed value plus an iteration descriptor. The value
  type is a parameter.
\<close>

record 'v Result =
  res_value :: 'v
  res_iter :: IteratorKind

text \<open>
  Modelled from the spec: \<^verbatim>\<open>ResultBuilder\<close> is declared outside the source file; the
  chain \<^verbatim>\<open>ResultBuilder().value(v).iter(k).finish()\<close> yields the Result made of the
  value and the iteration descriptor it was given.
\<close>

definition ResultBuilder_finish :: "'v \<Rightarrow> IteratorKind \<Rightarrow> 'v Result" where
  "ResultBuilder_finish v k = \<lparr>res_value = v, res_iter = k\<rparr>"

text \<open>
  Modelled from the spec: \<^verbatim>\<open>ExecutionContext\<close> is declared outside the source file;
  the spec describes it as a mapping from variable name to Result with an existence
  check and get/set, whose slots are declared empty before they are written. A
  declared, empty slot is \<open>Some None\<close>.
\<close>

type_synonym 'v ExecutionContext = "string \<rightharpoonup> 'v Result option"

text \<open>Modelled from the spec: \<^verbatim>\<open>ExecutionContext::exist\<close>, the existence check.\<close>

definition exist :: "'v ExecutionContext \<Rightarrow> string \<Rightarrow> bool" where
  "exist ec name = (ec name \<noteq> None)"

text \<open>Modelled from the spec: \<^verbatim>\<open>ExecutionContext::initVar\<close>, declaring an empty slot.\<close>

definition initVar :: "'v ExecutionContext \<Rightarrow> string \<Rightarrow> 'v ExecutionContext" where
  "initVar ec name = ec(name \<mapsto> None)"

text \<open>
  Modelled from the spec: \<^verbatim>\<open>ExecutionContext::setResult\<close>, the set operation of the
  mapping; it overwrites the prior value of the slot.
\<close>

definition setResult :: "'v ExecutionContext \<Rightarrow> string \<Rightarrow> 'v Result \<Rightarrow> 'v ExecutionContext" where
  "setResult ec name r = ec(name \<mapsto> Some r)"

text \<open>
  \<^verbatim>\<open>cpp2::ProfilingStats\<close>, the generated record that \<^verbatim>\<open>Executor::close\<close> fills through
  its three setters.
\<close>

record ProfilingStats =
  rows :: nat
  exec_duration_in_us :: nat
  total_duration_in_us :: nat

text \<open>
  Modelled from the spec: \<^verbatim>\<open>time::Duration\<close> is declared outside the source file; the
  spec calls it the wall-clock timer that \<^verbatim>\<open>open\<close> restarts. The clock is an explicit
  argument, in microseconds.
\<close>

datatype Duration = Duration (startTick: nat)

definition reset :: "nat \<Rightarrow> Duration" where
  "reset now = Duration now"

definition elapsedInUSec :: "nat \<Rightarrow> Duration \<Rightarrow> nat" where
  "elapsedInUSec now d = now - startTick d"

section \<open>Executors and the query context\<close>

text \<open>The class each case of the kind dispatch instantiates.\<close>

datatype (plugins only: code) ExecutorClass =
    PassThroughExecutor | AggregateExecutor | SortExecutor | FilterExecutor |
    GetEdgesExecutor | GetVerticesExecutor | GetNeighborsExecutor | LimitExecutor |
    ProjectExecutor | IndexScanExecutor | StartExecutor | UnionExecutor |
    IntersectExecutor | MinusExecutor | LoopExecutor | SelectExecutor | DedupExecutor |
    SwitchSpaceExecutor | CreateSpaceExecutor | DescSpaceExecutor |
    ShowSpacesExecutor | DropSpaceExecutor | ShowCreateSpaceExecutor |
    CreateTagExecutor | DescTagExecutor | AlterTagExecutor | CreateEdgeExecutor |
    DescEdgeExecutor | AlterEdgeExecutor | ShowTagsExecutor | ShowEdgesExecutor |
    DropTagExecutor | DropEdgeExecutor | ShowCreateTagExecutor |
    ShowCreateEdgeExecutor | InsertVerticesExecutor | InsertEdgesExecutor |
    DataCollectExecutor | CreateSnapshotExecutor | DropSnapshotExecutor |
    ShowSnapshotsExecutor | DataJoinExecutor | DeleteVerticesExecutor |
    DeleteEdgesExecutor | UpdateVertexExecutor | UpdateEdgeExecutor |
    CreateUserExecutor | DropUserExecutor | UpdateUserExecutor | GrantRoleExecutor |
    RevokeRoleExecutor | ChangePasswordExecutor | ListUserRolesExecutor |
    ListUsersExecutor | ListRolesExecutor | BalanceLeadersExecutor | BalanceExecutor |
    StopBalanceExecutor | ShowBalanceExecutor | ShowConfigsExecutor |
    SetConfigExecutor | GetConfigExecutor | SubmitJobExecutor | ShowHostsExecutor |
    ShowPartsExecutor | ShowCharsetExecutor | ShowCollationExecutor

text \<open>
  An executor lives in the object pool of the query context; a pointer to an executor
  is its index in the pool. The members \<^verbatim>\<open>id_\<close>, \<^verbatim>\<open>node_\<close>, \<^verbatim>\<open>numRows_\<close>, \<^verbatim>\<open>execTime_\<close>
  and \<^verbatim>\<open>totalDuration_\<close> are those the source file reads and writes. The edge members
  (\<open>depends\<close>, \<open>thenBody\<close>, \<open>elseBody\<close>, \<open>loopBody\<close>) are written by
  \<^verbatim>\<open>dependsOn\<close>, \<^verbatim>\<open>setThenBody\<close>, \<^verbatim>\<open>setElseBody\<close> and \<^verbatim>\<open>setLoopBody\<close>. The counters are
  natural numbers: their declared widths are outside the source file.
\<close>

record Executor =
  exec_class :: ExecutorClass
  exec_id :: int64
  node :: PlanNode
  depends :: "nat list"
  thenBody :: "nat option"
  elseBody :: "nat option"
  loopBody :: "nat option"
  numRows :: nat
  execTime :: nat
  totalDuration :: Duration

text \<open>\<^verbatim>\<open>folly::Executor\<close>: the inline executor, or a task runner of the request.\<close>

datatype folly_Executor = InlineExecutor | TaskRunner nat

record RequestContext =
  rctx_runner :: "folly_Executor option"

record 'v QueryContext =
  objPool :: "Executor list"
  ectx :: "'v ExecutionContext"
  rctx :: "RequestContext option"
  profilingData :: "(int64 \<times> ProfilingStats) list"

text \<open>
  Modelled from the spec: \<^verbatim>\<open>Status\<close> is declared outside the source file; the spec
  speaks of a success status and of failure statuses.
\<close>

datatype Status = OK | Failure string

section \<open>The builder\<close>

text \<open>
  The ways the build stops without returning: the \<^verbatim>\<open>DCHECK(node != nullptr)\<close> of
  \<^verbatim>\<open>makeExecutor\<close>, and the two \<^verbatim>\<open>LOG(FATAL)\<close> statements.
\<close>

datatype Abort = DCheckNodeNull | FatalUnknownKind Kind | FatalDependencies nat

text \<open>
  The local \<^verbatim>\<open>std::unordered_map<int64_t, Executor *> visited\<close>. Beside its entries the
  model keeps the sequence of \<^verbatim>\<open>find\<close> and \<^verbatim>\<open>insert\<close> calls made on it, which no
  operation reads; it serves to state in which order the builder uses the map.
\<close>

datatype MapOp = Find int64 "nat option" | Insert int64 nat

record Visited =
  entries :: "int64 \<rightharpoonup> nat"
  calls :: "MapOp list"

definition find_visited :: "int64 \<Rightarrow> Visited \<Rightarrow> nat option \<times> Visited" where
  "find_visited k v = (entries v k, v\<lparr>calls := calls v @ [Find k (entries v k)]\<rparr>)"

text \<open>\<^verbatim>\<open>std::unordered_map::insert\<close> leaves the map unchanged when the key is present.\<close>

definition insert_visited :: "int64 \<Rightarrow> nat \<Rightarrow> Visited \<Rightarrow> Visited" where
  "insert_visited k e v =
     v\<lparr>entries := (if entries v k = None then (entries v)(k \<mapsto> e) else entries v),
       calls := calls v @ [Insert k e]\<rparr>"

text \<open>The kind dispatch of \<^verbatim>\<open>makeExecutor(qctx, node)\<close>, as a table from kind to class.\<close>

primrec executorClass :: "Kind \<Rightarrow> ExecutorClass option" where
  "executorClass kPassThrough = Some PassThroughExecutor"
| "executorClass kAggregate = Some AggregateExecutor"
| "executorClass kSort = Some SortExecutor"
| "executorClass kFilter = Some FilterExecutor"
| "executorClass kGetEdges = Some GetEdgesExecutor"
| "executorClass kGetVertices = Some GetVerticesExecutor"
| "executorClass kGetNeighbors = Some GetNeighborsExecutor"
| "executorClass kLimit = Some LimitExecutor"
| "executorClass kProject = Some ProjectExecutor"
| "executorClass kIndexScan = Some IndexScanExecutor"
| "executorClass kStart = Some StartExecutor"
| "executorClass kUnion = Some UnionExecutor"
| "executorClass kIntersect = Some IntersectExecutor"
| "executorClass kMinus = Some MinusExecutor"
| "executorClass kLoop = Some LoopExecutor"
| "executorClass kSelect = Some SelectExecutor"
| "executorClass kDedup = Some DedupExecutor"
| "executorClass kSwitchSpace = Some SwitchSpaceExecutor"
| "executorClass kCreateSpace = Some CreateSpaceExecutor"
| "executorClass kDescSpace = Some DescSpaceExecutor"
| "executorClass kShowSpaces = Some ShowSpacesExecutor"
| "executorClass kDropSpace = Some DropSpaceExecutor"
| "executorClass kShowCreateSpace = Some ShowCreateSpaceExecutor"
| "executorClass kCreateTag = Some CreateTagExecutor"
| "executorClass kDescTag = Some DescTagExecutor"
| "executorClass kAlterTag = Some AlterTagExecutor"
| "executorClass kCreateEdge = Some CreateEdgeExecutor"
| "executorClass kDescEdge = Some DescEdgeExecutor"
| "executorClass kAlterEdge = Some AlterEdgeExecutor"
| "executorClass kShowTags = Some ShowTagsExecutor"
| "executorClass kShowEdges = Some ShowEdgesExecutor"
| "executorClass kDropTag = Some DropTagExecutor"
| "executorClass kDropEdge = Some DropEdgeExecutor"
| "executorClass kShowCreateTag = Some ShowCreateTagExecutor"
| "executorClass kShowCreateEdge = Some ShowCreateEdgeExecutor"
| "executorClass kInsertVertices = Some InsertVerticesExecutor"
| "executorClass kInsertEdges = Some InsertEdgesExecutor"
| "executorClass kDataCollect = Some DataCollectExecutor"
| "executorClass kCreateSnapshot = Some CreateSnapshotExecutor"
| "executorClass kDropSnapshot = Some DropSnapshotExecutor"
| "executorClass kShowSnapshots = Some ShowSnapshotsExecutor"
| "executorClass kDataJoin = Some DataJoinExecutor"
| "executorClass kDeleteVertices = Some DeleteVerticesExecutor"
| "executorClass kDeleteEdges = Some DeleteEdgesExecutor"
| "executorClass kUpdateVertex = Some UpdateVertexExecutor"
| "executorClass kUpdateEdge = Some UpdateEdgeExecutor"
| "executorClass kCreateUser = Some CreateUserExecutor"
| "executorClass kDropUser = Some DropUserExecutor"
| "executorClass kUpdateUser = Some UpdateUserExecutor"
| "executorClass kGrantRole = Some GrantRoleExecutor"
| "executorClass kRevokeRole = Some RevokeRoleExecutor"
| "executorClass kChangePassword = Some ChangePasswordExecutor"
| "executorClass kListUserRoles = Some ListUserRolesExecutor"
| "executorClass kListUsers = Some ListUsersExecutor"
| "executorClass kListRoles = Some ListRolesExecutor"
| "executorClass kBalanceLeaders = Some BalanceLeadersExecutor"
| "executorClass kBalance = Some BalanceExecutor"
| "executorClass kStopBalance = Some StopBalanceExecutor"
| "executorClass kShowBalance = Some ShowBalanceExecutor"
| "executorClass kShowConfigs = Some ShowConfigsExecutor"
| "executorClass kSetConfig = Some SetConfigExecutor"
| "executorClass kGetConfig = Some GetConfigExecutor"
| "executorClass kSubmitJob = Some SubmitJobExecutor"
| "executorClass kShowHosts = Some ShowHostsExecutor"
| "executorClass kShowParts = Some ShowPartsExecutor"
| "executorClass kShowCharset = Some ShowCharsetExecutor"
| "executorClass kShowCollation = Some ShowCollationExecutor"
| "executorClass kUnknown = None"

text \<open>
  The constructor \<^verbatim>\<open>Executor::Executor\<close>: it declares the slot of the node's output
  variable unless it exists. The initial values of the counters are set in the class
  declaration, outside the source file; \<^verbatim>\<open>open\<close> overwrites all three.
\<close>

definition Executor_init :: "ExecutorClass \<Rightarrow> PlanNode \<Rightarrow> 'v QueryContext \<Rightarrow> Executor \<times> 'v QueryContext" where
  "Executor_init c n qctx =
     (\<lparr>exec_class = c, exec_id = id_node n, node = n, depends = [], thenBody = None,
       elseBody = None, loopBody = None, numRows = 0, execTime = 0,
       totalDuration = Duration 0\<rparr>,
      if \<not> exist (ectx qctx) (outputVar n)
      then qctx\<lparr>ectx := initVar (ectx qctx) (outputVar n)\<rparr> else qctx)"

text \<open>
  Modelled from the spec: \<^verbatim>\<open>ObjectPool::add\<close> is declared outside the source file; the
  arena owns every executor of the run and hands out a non-owning handle.
\<close>

definition pool_add :: "Executor \<Rightarrow> 'v QueryContext \<Rightarrow> nat \<times> 'v QueryContext" where
  "pool_add e qctx = (length (objPool qctx), qctx\<lparr>objPool := objPool qctx @ [e]\<rparr>)"

text \<open>\<^verbatim>\<open>Executor::makeExecutor(QueryContext *qctx, const PlanNode *node)\<close>.\<close>

definition makeExecutor2 :: "'v QueryContext \<Rightarrow> PlanNode \<Rightarrow> Abort + nat \<times> 'v QueryContext" where
  "makeExecutor2 qctx n =
     (case executorClass (kind n) of
        None \<Rightarrow> Inl (FatalUnknownKind (kind n))
      | Some c \<Rightarrow> (case Executor_init c n qctx of (e, q) \<Rightarrow> Inr (pool_add e q)))"

text \<open>
  Modelled from the spec: \<^verbatim>\<open>Executor::dependsOn\<close> is declared outside the source file;
  it records an ordering edge from the predecessor to this executor.
\<close>

definition dependsOn :: "nat \<Rightarrow> nat \<Rightarrow> 'v QueryContext \<Rightarrow> 'v QueryContext" where
  "dependsOn exec dep qctx =
     qctx\<lparr>objPool := (objPool qctx)[exec := (objPool qctx ! exec)
        \<lparr>depends := depends (objPool qctx ! exec) @ [dep]\<rparr>]\<rparr>"

text \<open>
  Modelled from the spec: the setters of \<^verbatim>\<open>SelectExecutor\<close> and \<^verbatim>\<open>LoopExecutor\<close> are
  declared outside the source file; they attach the sub-graphs as the bodies of the
  control-flow executor.
\<close>

definition setThenBody :: "nat \<Rightarrow> nat \<Rightarrow> 'v QueryContext \<Rightarrow> 'v QueryContext" where
  "setThenBody exec b qctx =
     qctx\<lparr>objPool := (objPool qctx)[exec := (objPool qctx ! exec)\<lparr>thenBody := Some b\<rparr>]\<rparr>"

definition setElseBody :: "nat \<Rightarrow> nat \<Rightarrow> 'v QueryContext \<Rightarrow> 'v QueryContext" where
  "setElseBody exec b qctx =
     qctx\<lparr>objPool := (objPool qctx)[exec := (objPool qctx ! exec)\<lparr>elseBody := Some b\<rparr>]\<rparr>"

definition setLoopBody :: "nat \<Rightarrow> nat \<Rightarrow> 'v QueryContext \<Rightarrow> 'v QueryContext" where
  "setLoopBody exec b qctx =
     qctx\<lparr>objPool := (objPool qctx)[exec := (objPool qctx ! exec)\<lparr>loopBody := Some b\<rparr>]\<rparr>"

text \<open>
  \<^verbatim>\<open>Executor::makeExecutor(const PlanNode *node, QueryContext *qctx, visited)\<close>. The
  query context and the map are passed and returned; \<open>Inl\<close> is an abort.
\<close>

fun makeExecutor ::
  "PlanNode option \<Rightarrow> 'v QueryContext \<Rightarrow> Visited \<Rightarrow> Abort + nat \<times> 'v QueryContext \<times> Visited"
where
  "makeExecutor None qctx visited = Inl DCheckNodeNull"
| "makeExecutor (Some (PlanNode i k deps ov th el bd)) qctx visited =
     (case find_visited i visited of
        (Some e, v0) \<Rightarrow> Inr (e, qctx, v0)
      | (None, v0) \<Rightarrow>
         (case makeExecutor2 qctx (PlanNode i k deps ov th el bd) of
            Inl a \<Rightarrow> Inl a
          | Inr (exec, q0) \<Rightarrow>
             (case
                (case deps of
                   [] \<Rightarrow> Inr (q0, v0)
                 | [d0] \<Rightarrow>
                    (case
                       (if k = kSelect then
                          (case makeExecutor th q0 v0 of
                             Inl a \<Rightarrow> Inl a
                           | Inr (thenB, q1, v1) \<Rightarrow>
                              (case makeExecutor el q1 v1 of
                                 Inl a \<Rightarrow> Inl a
                               | Inr (elseB, q2, v2) \<Rightarrow>
                                  Inr (setElseBody exec elseB (setThenBody exec thenB q2), v2)))
                        else if k = kLoop then
                          (case makeExecutor bd q0 v0 of
                             Inl a \<Rightarrow> Inl a
                           | Inr (b, q1, v1) \<Rightarrow> Inr (setLoopBody exec b q1, v1))
                        else Inr (q0, v0))
                     of
                       Inl a \<Rightarrow> Inl a
                     | Inr (q3, v3) \<Rightarrow>
                        (case makeExecutor d0 q3 v3 of
                           Inl a \<Rightarrow> Inl a
                         | Inr (dep, q4, v4) \<Rightarrow> Inr (dependsOn exec dep q4, v4)))
                 | [d0, d1] \<Rightarrow>
                    (case makeExecutor d0 q0 v0 of
                       Inl a \<Rightarrow> Inl a
                     | Inr (left, q1, v1) \<Rightarrow>
                        (case makeExecutor d1 q1 v1 of
                           Inl a \<Rightarrow> Inl a
                         | Inr (right, q2, v2) \<Rightarrow>
                            Inr (dependsOn exec right (dependsOn exec left q2), v2)))
                 | _ \<Rightarrow> Inl (FatalDependencies (length deps)))
              of
                Inl a \<Rightarrow> Inl a
              | Inr (q5, v5) \<Rightarrow> Inr (exec, q5, insert_visited i exec v5))))"

text \<open>\<^verbatim>\<open>Executor::create\<close>: a fresh map, discarded on return.\<close>

definition create :: "PlanNode option \<Rightarrow> 'v QueryContext \<Rightarrow> Abort + nat \<times> 'v QueryContext" where
  "create n qctx =
     (case makeExecutor n qctx \<lparr>entries = Map.empty, calls = []\<rparr> of
        Inl a \<Rightarrow> Inl a
      | Inr (e, q, v) \<Rightarrow> Inr (e, q))"

section \<open>The lifecycle of an executor\<close>

text \<open>\<^verbatim>\<open>Executor::open\<close>, at clock reading \<open>now\<close>.\<close>

definition open_exec :: "nat \<Rightarrow> Executor \<Rightarrow> Status \<times> Executor" where
  "open_exec now e = (OK, e\<lparr>numRows := 0, execTime := 0, totalDuration := reset now\<rparr>)"

text \<open>
  Modelled from the spec: \<^verbatim>\<open>QueryContext::addProfilingData\<close> is declared outside the
  source file; the profiling sink receives statistics addressed by node identity.
  The sink is the sequence of the records it was given, each with its key.
\<close>

definition addProfilingData :: "int64 \<Rightarrow> ProfilingStats \<Rightarrow> 'v QueryContext \<Rightarrow> 'v QueryContext" where
  "addProfilingData k stats qctx = qctx\<lparr>profilingData := profilingData qctx @ [(k, stats)]\<rparr>"

text \<open>\<^verbatim>\<open>Executor::close\<close>, at clock reading \<open>now\<close>.\<close>

definition close_exec :: "nat \<Rightarrow> Executor \<Rightarrow> 'v QueryContext \<Rightarrow> Status \<times> 'v QueryContext" where
  "close_exec now e qctx =
     (let stats = \<lparr>rows = numRows e, exec_duration_in_us = execTime e,
                   total_duration_in_us = elapsedInUSec now (totalDuration e)\<rparr>
      in (OK, addProfilingData (id_node (node e)) stats qctx))"

text \<open>
  \<^verbatim>\<open>Executor::finish(Result &&result)\<close>. \<^verbatim>\<open>Result::size\<close> is declared outside the source
  file and is the parameter \<open>sz\<close>.
\<close>

definition finish ::
  "('v Result \<Rightarrow> nat) \<Rightarrow> Executor \<Rightarrow> 'v QueryContext \<Rightarrow> 'v Result
     \<Rightarrow> Status \<times> Executor \<times> 'v QueryContext"
where
  "finish sz e qctx result =
     (OK, e\<lparr>numRows := sz result\<rparr>,
      qctx\<lparr>ectx := setResult (ectx qctx) (outputVar (node e)) result\<rparr>)"

text \<open>\<^verbatim>\<open>Executor::finish(Value &&value)\<close>.\<close>

definition finish_Value ::
  "('v Result \<Rightarrow> nat) \<Rightarrow> Executor \<Rightarrow> 'v QueryContext \<Rightarrow> 'v
     \<Rightarrow> Status \<times> Executor \<times> 'v QueryContext"
where
  "finish_Value sz e qctx v = finish sz e qctx (ResultBuilder_finish v kDefault)"

section \<open>Asynchronous results\<close>

text \<open>
  \<^verbatim>\<open>ExecutionError\<close> wraps a status. A \<^verbatim>\<open>folly::Future<Status>\<close> is pending or holds a
  \<^verbatim>\<open>folly::Try\<close> (a value or an exception), carries the executor it was moved to with
  \<^verbatim>\<open>via\<close>, and the continuations chained to it, which run on that executor once the
  future is resolved. The continuation of interest is the one that invokes the
  \<^verbatim>\<open>execute\<close> member of an executor of the pool; a member function invokes \<^verbatim>\<open>execute\<close>
  asynchronously by chaining it to the future it returns.
\<close>

datatype ExecutionError = ExecutionError Status

datatype Try = Value Status | Exception ExecutionError

datatype FutureCore = Pending | Ready Try

datatype Continuation = Execute nat

record Future =
  core :: FutureCore
  via_executor :: "folly_Executor option"
  continuations :: "Continuation list"

text \<open>
  \<^verbatim>\<open>folly::makeFuture\<close> of a value and of an exception: a resolved future, not yet moved
  to an executor, with nothing chained to it.
\<close>

definition makeFuture :: "Status \<Rightarrow> Future" where
  "makeFuture s = \<lparr>core = Ready (Value s), via_executor = None, continuations = []\<rparr>"

definition makeFuture_exception :: "ExecutionError \<Rightarrow> Future" where
  "makeFuture_exception x =
     \<lparr>core = Ready (Exception x), via_executor = None, continuations = []\<rparr>"

definition via :: "folly_Executor \<Rightarrow> Future \<Rightarrow> Future" where
  "via x f = f\<lparr>via_executor := Some x\<rparr>"

text \<open>\<^verbatim>\<open>Executor::runner\<close>; the argument is the executor's \<^verbatim>\<open>qctx()\<close> pointer.\<close>

definition runner :: "'v QueryContext option \<Rightarrow> folly_Executor" where
  "runner qctx =
     (case qctx of
        None \<Rightarrow> InlineExecutor
      | Some q \<Rightarrow>
         (case rctx q of
            None \<Rightarrow> InlineExecutor
          | Some rc \<Rightarrow> (case rctx_runner rc of None \<Rightarrow> InlineExecutor | Some r \<Rightarrow> r)))"

text \<open>
  \<^verbatim>\<open>Executor::start\<close> and \<^verbatim>\<open>Executor::error\<close>. Both are \<^verbatim>\<open>const\<close> members: they
  read the query context pointer of the executor and change no member.
\<close>

definition start :: "'v QueryContext option \<Rightarrow> Status \<Rightarrow> Future" where
  "start qctx status = via (runner qctx) (makeFuture status)"

definition error :: "'v QueryContext option \<Rightarrow> Status \<Rightarrow> Future" where
  "error qctx status = via (runner qctx) (makeFuture_exception (ExecutionError status))"

section \<open>What a build traverses\<close>

text \<open>
  The nodes a build started at a pointer visits when no lookup hits, in the order of
  the calls of \<^verbatim>\<open>makeExecutor\<close>: the node, then (for one dependency) the control
  children of a Select or of a Loop node and the dependency, or (for two) both
  dependencies. A shared node is listed once for every path to it.
\<close>

fun reach :: "PlanNode option \<Rightarrow> PlanNode list" where
  "reach None = []"
| "reach (Some (PlanNode i k deps ov th el bd)) =
     PlanNode i k deps ov th el bd #
       (case deps of
          [] \<Rightarrow> []
        | [d0] \<Rightarrow>
           (if k = kSelect then reach th @ reach el
            else if k = kLoop then reach bd else []) @ reach d0
        | [d0, d1] \<Rightarrow> reach d0 @ reach d1
        | _ \<Rightarrow> [])"

text \<open>
  The child pointers \<^verbatim>\<open>makeExecutor\<close> is called on while it builds a node, in the order
  of the calls.
\<close>

definition kids :: "PlanNode \<Rightarrow> PlanNode option list" where
  "kids n =
     (case dependencies n of
        [] \<Rightarrow> []
      | [d0] \<Rightarrow>
         (if kind n = kSelect then [then_node n, otherwise n]
          else if kind n = kLoop then [body n] else []) @ [d0]
      | [d0, d1] \<Rightarrow> [d0, d1]
      | _ \<Rightarrow> [])"

text \<open>
  The aborts a traversal from a pointer can meet: a null pointer, a kind without an
  entry in the dispatch, a dependency list longer than two.
\<close>

fun aborts :: "PlanNode option \<Rightarrow> Abort set" where
  "aborts None = {DCheckNodeNull}"
| "aborts (Some (PlanNode i k deps ov th el bd)) =
     (if executorClass k = None then {FatalUnknownKind k}
      else
        (case deps of
           [] \<Rightarrow> {}
         | [d0] \<Rightarrow>
            (if k = kSelect then aborts th \<union> aborts el
             else if k = kLoop then aborts bd else {}) \<union> aborts d0
         | [d0, d1] \<Rightarrow> aborts d0 \<union> aborts d1
         | _ \<Rightarrow> {FatalDependencies (length deps)}))"

text \<open>
  What a client keeps of a build: the handle of the root executor and the object pool.
\<close>

definition built :: "PlanNode option \<Rightarrow> 'v QueryContext \<Rightarrow> (nat \<times> Executor list) option" where
  "built c q = (case create c q of Inl a \<Rightarrow> None | Inr (h, q') \<Rightarrow> Some (h, objPool q'))"

text \<open>
  The calls a build made on its memoization map.
\<close>

definition build_calls :: "PlanNode option \<Rightarrow> 'v QueryContext \<Rightarrow> MapOp list option" where
  "build_calls c q =
     (case makeExecutor c q \<lparr>entries = Map.empty, calls = []\<rparr> of
        Inl a \<Rightarrow> None
      | Inr (h, q', v') \<Rightarrow> Some (calls v'))"

text \<open>
  The handles an executor holds: its predecessors, and the bodies of a control-flow
  executor whose node has one dependency.
\<close>

definition edge :: "Executor \<Rightarrow> nat \<Rightarrow> bool" where
  "edge e h \<longleftrightarrow>
     h \<in> set (depends e) \<or>
     (length (dependencies (node e)) = 1 \<and> kind (node e) = kSelect \<and>
        (thenBody e = Some h \<or> elseBody e = Some h)) \<or>
     (length (dependencies (node e)) = 1 \<and> kind (node e) = kLoop \<and> loopBody e = Some h)"

text \<open>
  An executor is wired in a pool, from the handle \<open>b\<close> on, when each of its handles
  is a handle of the pool not below \<open>b\<close> and refers to the executor of the
  corresponding child of its node: the predecessors to the dependencies in order, the
  bodies to the control children.
\<close>

definition wired :: "nat \<Rightarrow> Executor list \<Rightarrow> Executor \<Rightarrow> bool" where
  "wired b P e \<longleftrightarrow>
     length (dependencies (node e)) \<le> 2 \<and>
     (\<forall>h \<in> set (depends e). b \<le> h \<and> h < length P) \<and>
     map (\<lambda>h. Some (node (P ! h))) (depends e) = dependencies (node e) \<and>
     (length (dependencies (node e)) = 1 \<and> kind (node e) = kSelect \<longrightarrow>
        (\<exists>ht he. thenBody e = Some ht \<and> b \<le> ht \<and> ht < length P \<and>
                 then_node (node e) = Some (node (P ! ht)) \<and>
                 elseBody e = Some he \<and> b \<le> he \<and> he < length P \<and>
                 otherwise (node e) = Some (node (P ! he)))) \<and>
     (length (dependencies (node e)) = 1 \<and> kind (node e) = kLoop \<longrightarrow>
        (\<exists>hb. loopBody e = Some hb \<and> b \<le> hb \<and> hb < length P \<and>
              body (node e) = Some (node (P ! hb))))"

section \<open>Example plans\<close>

text \<open>
  A diamond: a union of a filter and a projection that share one scan.
\<close>

definition scan :: PlanNode where
  "scan = PlanNode 1 kStart [] ''scan'' None None None"

definition left_branch :: PlanNode where
  "left_branch = PlanNode 2 kFilter [Some scan] ''left'' None None None"

definition right_branch :: PlanNode where
  "right_branch = PlanNode 3 kProject [Some scan] ''right'' None None None"

definition diamond :: PlanNode where
  "diamond = PlanNode 4 kUnion [Some left_branch, Some right_branch] ''out'' None None None"

text \<open>
  A node with three dependencies, a node of the unknown kind, and a Select node with
  its dependency and its two alternatives.
\<close>

definition three_deps :: PlanNode where
  "three_deps = PlanNode 9 kUnion [Some scan, Some scan, Some scan] ''bad'' None None None"

definition unknown_node :: PlanNode where
  "unknown_node = PlanNode 8 kUnknown [] ''unknown'' None None None"

definition select_plan :: PlanNode where
  "select_plan =
     PlanNode 5 kSelect [Some scan] ''sel'' (Some left_branch) (Some right_branch) None"

text \<open>
  A query context without executors and slots, the same with the task runner of a
  request, the empty map, and the states the builds of the examples end in.
\<close>

definition empty_qctx :: "unit QueryContext" where
  "empty_qctx = \<lparr>objPool = [], ectx = Map.empty, rctx = None, profilingData = []\<rparr>"

definition request_qctx :: "unit QueryContext" where
  "request_qctx =
     \<lparr>objPool = [], ectx = Map.empty, rctx = Some \<lparr>rctx_runner = Some (TaskRunner 7)\<rparr>,
      profilingData = []\<rparr>"

definition fresh_visited :: Visited where
  "fresh_visited = \<lparr>entries = Map.empty, calls = []\<rparr>"

definition executor_of :: "ExecutorClass \<Rightarrow> PlanNode \<Rightarrow> nat list \<Rightarrow> Executor" where
  "executor_of c n ds =
     \<lparr>exec_class = c, exec_id = id_node n, node = n, depends = ds, thenBody = None,
      elseBody = None, loopBody = None, numRows = 0, execTime = 0,
      totalDuration = Duration 0\<rparr>"

definition diamond_built :: "unit QueryContext" where
  "diamond_built =
     \<lparr>objPool =
        [executor_of UnionExecutor diamond [1, 3], executor_of FilterExecutor left_branch [2],
         executor_of StartExecutor scan [], executor_of ProjectExecutor right_branch [2]],
      ectx = [''out'' \<mapsto> None, ''left'' \<mapsto> None, ''scan'' \<mapsto> None, ''right'' \<mapsto> None],
      rctx = None, profilingData = []\<rparr>"

definition left_built :: "unit QueryContext" where
  "left_built =
     \<lparr>objPool = [executor_of FilterExecutor left_branch [1], executor_of StartExecutor scan []],
      ectx = [''left'' \<mapsto> None, ''scan'' \<mapsto> None],
      rctx = None, profilingData = []\<rparr>"

definition left_visited :: Visited where
  "left_visited =
     \<lparr>entries = [1 \<mapsto> 1, 2 \<mapsto> 0],
      calls = [Find 2 None, Find 1 None, Insert 1 1, Insert 2 0]\<rparr>"

definition select_built :: "unit QueryContext" where
  "select_built =
     \<lparr>objPool =
        [(executor_of SelectExecutor select_plan [2])\<lparr>thenBody := Some 1, elseBody := Some 3\<rparr>,
         executor_of FilterExecutor left_branch [2], executor_of StartExecutor scan [],
         executor_of ProjectExecutor right_branch [2]],
      ectx = [''sel'' \<mapsto> None, ''left'' \<mapsto> None, ''scan'' \<mapsto> None, ''right'' \<mapsto> None],
      rctx = None, profilingData = []\<rparr>"

section \<open>Invariants of the build\<close>

text \<open>
  The entry of the map for the node a pointer refers to.
\<close>

definition memo_of :: "(int64 \<rightharpoonup> nat) \<Rightarrow> PlanNode option \<Rightarrow> nat option" where
  "memo_of m c = (case c of None \<Rightarrow> None | Some n \<Rightarrow> m (id_node n))"

text \<open>
  The handles of an executor are the entries of the map for the children of its node.
\<close>

definition linked :: "(int64 \<rightharpoonup> nat) \<Rightarrow> Executor \<Rightarrow> bool" where
  "linked m e \<longleftrightarrow>
     length (dependencies (node e)) \<le> 2 \<and>
     map Some (depends e) = map (memo_of m) (dependencies (node e)) \<and>
     (length (dependencies (node e)) = 1 \<and> kind (node e) = kSelect \<longrightarrow>
        (\<exists>ht he. thenBody e = Some ht \<and> memo_of m (then_node (node e)) = Some ht \<and>
                 elseBody e = Some he \<and> memo_of m (otherwise (node e)) = Some he)) \<and>
     (length (dependencies (node e)) = 1 \<and> kind (node e) = kLoop \<longrightarrow>
        (\<exists>hb. loopBody e = Some hb \<and> memo_of m (body (node e)) = Some hb))"

text \<open>
  The invariant of the map: every entry is a handle of the pool, of an executor that
  was built for a node of the plan \<open>U\<close> with the key as identity, by the class the
  dispatch gives, and whose handles are entries of the map.
\<close>

definition memo_inv :: "PlanNode set \<Rightarrow> Executor list \<Rightarrow> (int64 \<rightharpoonup> nat) \<Rightarrow> bool" where
  "memo_inv U P m \<longleftrightarrow>
     (\<forall>i h. m i = Some h \<longrightarrow>
        h < length P \<and> exec_id (P ! h) = i \<and> id_node (node (P ! h)) = i \<and>
        node (P ! h) \<in> U \<and> linked m (P ! h) \<and>
        executorClass (kind (node (P ! h))) = Some (exec_class (P ! h)))"

text \<open>
  What a returning call establishes: the pool is extended, the map is extended by
  entries for new executors only, every new executor is entered under its identity, the
  new keys are identities of nodes reached from the argument, and the returned handle
  is the entry of the argument.
\<close>

definition call_post ::
  "PlanNode set \<Rightarrow> Executor list \<Rightarrow> (int64 \<rightharpoonup> nat) \<Rightarrow> PlanNode option \<Rightarrow> nat
     \<Rightarrow> Executor list \<Rightarrow> (int64 \<rightharpoonup> nat) \<Rightarrow> bool"
where
  "call_post U P m c h P' m' \<longleftrightarrow>
     length P \<le> length P' \<and> take (length P) P' = P \<and> memo_inv U P' m' \<and> m \<subseteq>\<^sub>m m' \<and>
     (\<forall>j hh. m' j = Some hh \<longrightarrow> m j = None \<longrightarrow> length P \<le> hh) \<and>
     (\<forall>k. length P \<le> k \<and> k < length P' \<longrightarrow> m' (exec_id (P' ! k)) = Some k) \<and>
     dom m' \<subseteq> dom m \<union> id_node ` set (reach c) \<and>
     memo_of m' c = Some h"

text \<open>
  The states between the construction of the executor of a node \<open>n\<close> and its
  insertion into the map: the executor stands at the first new handle and is not yet
  entered; \<open>S\<close> bounds the identities entered meanwhile.
\<close>

definition mid ::
  "PlanNode set \<Rightarrow> Executor list \<Rightarrow> (int64 \<rightharpoonup> nat) \<Rightarrow> PlanNode \<Rightarrow> int64 set
     \<Rightarrow> Executor list \<Rightarrow> (int64 \<rightharpoonup> nat) \<Rightarrow> bool"
where
  "mid U P m n S Px mx \<longleftrightarrow>
     length P < length Px \<and> take (length P) Px = P \<and>
     exec_id (Px ! length P) = id_node n \<and> node (Px ! length P) = n \<and>
     executorClass (kind n) = Some (exec_class (Px ! length P)) \<and>
     memo_inv U Px mx \<and> m \<subseteq>\<^sub>m mx \<and>
     (\<forall>j hh. m j = Some hh \<longrightarrow> hh < length P) \<and>
     (\<forall>j hh. mx j = Some hh \<longrightarrow> m j = None \<longrightarrow> length P < hh) \<and>
     (\<forall>k. length P < k \<and> k < length Px \<longrightarrow> mx (exec_id (Px ! k)) = Some k) \<and>
     dom mx \<subseteq> dom m \<union> S"

text \<open>
  What every returning call preserves of the query context: executors keep their
  node, slots keep their content, and every new executor has the slot of its node's
  output variable.
\<close>

definition frame :: "'v QueryContext \<Rightarrow> 'v QueryContext \<Rightarrow> bool" where
  "frame q q' \<longleftrightarrow>
     length (objPool q) \<le> length (objPool q') \<and>
     (\<forall>k<length (objPool q). node (objPool q' ! k) = node (objPool q ! k)) \<and>
     ectx q \<subseteq>\<^sub>m ectx q' \<and> rctx q' = rctx q \<and> profilingData q' = profilingData q \<and>
     (\<forall>k. length (objPool q) \<le> k \<and> k < length (objPool q') \<longrightarrow>
        outputVar (node (objPool q' ! k)) \<in> dom (ectx q'))"

text \<open>
  The calls made on the map extend the record of calls, and every lookup that hit
  returned the entry the map still holds.
\<close>

definition recorded :: "Visited \<Rightarrow> Visited \<Rightarrow> bool" where
  "recorded v v' \<longleftrightarrow>
     entries v \<subseteq>\<^sub>m entries v' \<and>
     (\<exists>ops. calls v' = calls v @ ops \<and>
        (\<forall>i k. Find i (Some k) \<in> set ops \<longrightarrow> entries v' i = Some k))"

section \<open>Lemmas about the builder\<close>

subsection \<open>The map and the primitives\<close>

lemma fst_find_visited [simp]: "fst (find_visited k v) = entries v k"
  by (simp add: find_visited_def)

lemma entries_find_visited [simp]: "entries (snd (find_visited k v)) = entries v"
  by (simp add: find_visited_def)

lemma calls_find_visited [simp]:
  "calls (snd (find_visited k v)) = calls v @ [Find k (entries v k)]"
  by (simp add: find_visited_def)

lemma entries_insert_visited:
  "entries (insert_visited k e v) = (if entries v k = None then (entries v)(k \<mapsto> e) else entries v)"
  by (simp add: insert_visited_def)

lemma calls_insert_visited [simp]:
  "calls (insert_visited k e v) = calls v @ [Insert k e]"
  by (simp add: insert_visited_def)

lemma insert_visited_mono: "entries v \<subseteq>\<^sub>m entries (insert_visited k e v)"
  by (auto simp: entries_insert_visited map_le_def)

lemma makeExecutor2_Inr:
  assumes "makeExecutor2 q n = Inr (h, q0)"
  shows "h = length (objPool q)"
    and "\<exists>c. executorClass (kind n) = Some c \<and>
           objPool q0 = objPool q @
             [\<lparr>exec_class = c, exec_id = id_node n, node = n, depends = [], thenBody = None,
               elseBody = None, loopBody = None, numRows = 0, execTime = 0,
               totalDuration = Duration 0\<rparr>]"
    and "ectx q0 = (if ectx q (outputVar n) = None then (ectx q)(outputVar n \<mapsto> None) else ectx q)"
    and "rctx q0 = rctx q" and "profilingData q0 = profilingData q"
  using assms
  by (auto simp: makeExecutor2_def Executor_init_def pool_add_def exist_def initVar_def
      split: option.splits if_splits)

lemma makeExecutor2_Inl:
  "makeExecutor2 q n = Inl a \<Longrightarrow> a = FatalUnknownKind (kind n) \<and> executorClass (kind n) = None"
  by (auto simp: makeExecutor2_def pool_add_def split: option.splits prod.splits)

lemma makeExecutor2_Inr_class:
  "makeExecutor2 q n = Inr x \<Longrightarrow> executorClass (kind n) \<noteq> None"
  by (auto simp: makeExecutor2_def split: option.splits)

lemma objPool_dependsOn [simp]:
  "objPool (dependsOn h d q) = (objPool q)[h := (objPool q ! h)\<lparr>depends := depends (objPool q ! h) @ [d]\<rparr>]"
  by (simp add: dependsOn_def)

lemma objPool_setThenBody [simp]:
  "objPool (setThenBody h b q) = (objPool q)[h := (objPool q ! h)\<lparr>thenBody := Some b\<rparr>]"
  by (simp add: setThenBody_def)

lemma objPool_setElseBody [simp]:
  "objPool (setElseBody h b q) = (objPool q)[h := (objPool q ! h)\<lparr>elseBody := Some b\<rparr>]"
  by (simp add: setElseBody_def)

lemma objPool_setLoopBody [simp]:
  "objPool (setLoopBody h b q) = (objPool q)[h := (objPool q ! h)\<lparr>loopBody := Some b\<rparr>]"
  by (simp add: setLoopBody_def)

lemma link_frame [simp]:
  "ectx (dependsOn h d q) = ectx q" "rctx (dependsOn h d q) = rctx q"
  "profilingData (dependsOn h d q) = profilingData q"
  "ectx (setThenBody h d q) = ectx q" "rctx (setThenBody h d q) = rctx q"
  "profilingData (setThenBody h d q) = profilingData q"
  "ectx (setElseBody h d q) = ectx q" "rctx (setElseBody h d q) = rctx q"
  "profilingData (setElseBody h d q) = profilingData q"
  "ectx (setLoopBody h d q) = ectx q" "rctx (setLoopBody h d q) = rctx q"
  "profilingData (setLoopBody h d q) = profilingData q"
  by (simp_all add: dependsOn_def setThenBody_def setElseBody_def setLoopBody_def)

lemma map_le_Some: "m \<subseteq>\<^sub>m m' \<Longrightarrow> m k = Some x \<Longrightarrow> m' k = Some x"
  by (metis domI map_le_def)

lemma take_nth_eq: "take a ys = xs \<Longrightarrow> k < length xs \<Longrightarrow> ys ! k = xs ! k"
  by (metis length_take min_less_iff_conj nth_take)

lemma take_take_le: "take b ys = xs \<Longrightarrow> a \<le> length xs \<Longrightarrow> take a ys = take a xs"
  by (metis length_take min.absorb2 min.cobounded2 min_def take_take le_trans)

lemma list_le2_cases:
  assumes "length xs \<le> 2"
  obtains "xs = []" | a where "xs = [a]" | a b where "xs = [a, b]"
proof (cases xs)
  case Nil
  then show thesis by (rule that(1))
next
  case (Cons a ys)
  note xs = this
  show thesis
  proof (cases ys)
    case Nil
    with xs show thesis by (intro that(2)) simp
  next
    case (Cons b zs)
    with xs assms have "zs = []" by simp
    with xs Cons show thesis by (intro that(3)) simp
  qed
qed

lemma list_gt2: "2 < length xs \<Longrightarrow> \<exists>a b c ys. xs = a # b # c # ys"
  by (cases xs; simp; cases "tl xs"; simp; cases "tl (tl xs)"; simp)

lemma inj_on_set_remdups: "inj_on f (set xs) = distinct (map f (remdups xs))"
  by (simp add: distinct_map)

subsection \<open>The shapes of a call\<close>

lemma case_sum_Inr_iff:
  "((case m of Inl a \<Rightarrow> Inl a | Inr x \<Rightarrow> f x) = Inr y) = (\<exists>x. m = Inr x \<and> f x = Inr y)"
  by (cases m) auto

lemma case_sum_Inl_iff:
  "((case m of Inl a \<Rightarrow> Inl a | Inr x \<Rightarrow> f x) = Inl b) = (m = Inl b \<or> (\<exists>x. m = Inr x \<and> f x = Inl b))"
  by (cases m) auto

lemma makeExecutor_Some_cases [consumes 1, case_names hit leaf single select loop binary]:
  assumes "makeExecutor (Some n) q v = Inr (h, q', v')"
  obtains
    (hit) "entries v (id_node n) = Some h" "q' = q" "v' = snd (find_visited (id_node n) v)"
  | (leaf) "entries v (id_node n) = None" "dependencies n = []"
      "makeExecutor2 q n = Inr (h, q')"
      "v' = insert_visited (id_node n) h (snd (find_visited (id_node n) v))"
  | (single) q0 d0 hdep q4 v4 where
      "entries v (id_node n) = None" "dependencies n = [d0]"
      "kind n \<noteq> kSelect" "kind n \<noteq> kLoop"
      "makeExecutor2 q n = Inr (h, q0)"
      "makeExecutor d0 q0 (snd (find_visited (id_node n) v)) = Inr (hdep, q4, v4)"
      "q' = dependsOn h hdep q4" "v' = insert_visited (id_node n) h v4"
  | (select) q0 d0 ht q1 v1 he q2 v2 hdep q4 v4 where
      "entries v (id_node n) = None" "dependencies n = [d0]" "kind n = kSelect"
      "makeExecutor2 q n = Inr (h, q0)"
      "makeExecutor (then_node n) q0 (snd (find_visited (id_node n) v)) = Inr (ht, q1, v1)"
      "makeExecutor (otherwise n) q1 v1 = Inr (he, q2, v2)"
      "makeExecutor d0 (setElseBody h he (setThenBody h ht q2)) v2 = Inr (hdep, q4, v4)"
      "q' = dependsOn h hdep q4" "v' = insert_visited (id_node n) h v4"
  | (loop) q0 d0 hb q1 v1 hdep q4 v4 where
      "entries v (id_node n) = None" "dependencies n = [d0]"
      "kind n \<noteq> kSelect" "kind n = kLoop"
      "makeExecutor2 q n = Inr (h, q0)"
      "makeExecutor (body n) q0 (snd (find_visited (id_node n) v)) = Inr (hb, q1, v1)"
      "makeExecutor d0 (setLoopBody h hb q1) v1 = Inr (hdep, q4, v4)"
      "q' = dependsOn h hdep q4" "v' = insert_visited (id_node n) h v4"
  | (binary) q0 d0 d1 hl q1 v1 hr q2 v2 where
      "entries v (id_node n) = None" "dependencies n = [d0, d1]"
      "makeExecutor2 q n = Inr (h, q0)"
      "makeExecutor d0 q0 (snd (find_visited (id_node n) v)) = Inr (hl, q1, v1)"
      "makeExecutor d1 q1 v1 = Inr (hr, q2, v2)"
      "q' = dependsOn h hr (dependsOn h hl q2)" "v' = insert_visited (id_node n) h v2"
proof (cases n)
  case (PlanNode i k deps ov th el bd)
  define v0 where "v0 = snd (find_visited i v)"
  have fv: "find_visited i v = (entries v i, v0)"
    by (simp add: find_visited_def v0_def)
  have nsel: "id_node n = i" "dependencies n = deps" "kind n = k" "then_node n = th"
    "otherwise n = el" "body n = bd"
    using PlanNode by simp_all
  note A = assms [unfolded PlanNode makeExecutor.simps fv prod.case, folded PlanNode]
  show thesis
  proof (cases "entries v i")
    case (Some e)
    with A have "e = h" "q' = q" "v' = v0" by simp_all
    with Some nsel v0_def show thesis by (intro hit) simp_all
  next
    case None
    show thesis
    proof (cases deps)
      case Nil
      with A None have "makeExecutor2 q n = Inr (h, q')" "v' = insert_visited i h v0"
        by (auto simp: case_sum_Inr_iff)
      with None Nil nsel v0_def show thesis by (intro leaf) simp_all
    next
      case (Cons d0 ds)
      note ds = this
      show thesis
      proof (cases ds)
        case Nil
        show thesis
        proof (cases "k = kSelect")
          case True
          with A None ds Nil have
            "\<exists>q0 ht q1 v1 he q2 v2 hdep q4 v4.
               makeExecutor2 q n = Inr (h, q0) \<and>
               makeExecutor th q0 v0 = Inr (ht, q1, v1) \<and>
               makeExecutor el q1 v1 = Inr (he, q2, v2) \<and>
               makeExecutor d0 (setElseBody h he (setThenBody h ht q2)) v2 = Inr (hdep, q4, v4) \<and>
               q' = dependsOn h hdep q4 \<and> v' = insert_visited i h v4"
            by (auto simp: case_sum_Inr_iff)
          with None ds Nil True nsel v0_def show thesis
            by (elim exE conjE) (rule select, simp_all)
        next
          case False
          note ns = this
          show thesis
          proof (cases "k = kLoop")
            case True
            with A None ds Nil ns have
              "\<exists>q0 hb q1 v1 hdep q4 v4.
                 makeExecutor2 q n = Inr (h, q0) \<and>
                 makeExecutor bd q0 v0 = Inr (hb, q1, v1) \<and>
                 makeExecutor d0 (setLoopBody h hb q1) v1 = Inr (hdep, q4, v4) \<and>
                 q' = dependsOn h hdep q4 \<and> v' = insert_visited i h v4"
              by (auto simp: case_sum_Inr_iff)
            with None ds Nil True ns nsel v0_def show thesis
              by (elim exE conjE) (rule loop, simp_all)
          next
            case False
            with A None ds Nil ns have
              "\<exists>q0 hdep q4 v4.
                 makeExecutor2 q n = Inr (h, q0) \<and>
                 makeExecutor d0 q0 v0 = Inr (hdep, q4, v4) \<and>
                 q' = dependsOn h hdep q4 \<and> v' = insert_visited i h v4"
              by (auto simp: case_sum_Inr_iff)
            with None ds Nil False ns nsel v0_def show thesis
              by (elim exE conjE) (rule single, simp_all)
          qed
        qed
      next
        case (Cons d1 ds')
        note ds1 = this
        show thesis
        proof (cases ds')
          case Nil
          with A None ds ds1 have
            "\<exists>q0 hl q1 v1 hr q2 v2.
               makeExecutor2 q n = Inr (h, q0) \<and>
               makeExecutor d0 q0 v0 = Inr (hl, q1, v1) \<and>
               makeExecutor d1 q1 v1 = Inr (hr, q2, v2) \<and>
               q' = dependsOn h hr (dependsOn h hl q2) \<and> v' = insert_visited i h v2"
            by (auto simp: case_sum_Inr_iff)
          with None ds ds1 Nil nsel v0_def show thesis
            by (elim exE conjE) (rule binary, simp_all)
        next
          case (Cons d2 ds'')
          with A None ds ds1 show thesis by (auto simp: case_sum_Inr_iff)
        qed
      qed
    qed
  qed
qed

lemma makeExecutor_Inl_cases [consumes 1, case_names kind arity child]:
  assumes "makeExecutor (Some n) (q :: 'v QueryContext) v = Inl a"
  obtains
    (kind) "entries v (id_node n) = None" "makeExecutor2 q n = Inl a"
  | (arity) h q0 where "entries v (id_node n) = None" "makeExecutor2 q n = Inr (h, q0)"
      "2 < length (dependencies n)" "a = FatalDependencies (length (dependencies n))"
  | (child) h q0 c and qx :: "'v QueryContext" and vx where "entries v (id_node n) = None"
      "makeExecutor2 q n = Inr (h, q0)" "length (dependencies n) \<le> 2"
      "c \<in> set (kids n)" "makeExecutor c qx vx = Inl a"
proof (cases n)
  case (PlanNode i k deps ov th el bd)
  define v0 where "v0 = snd (find_visited i v)"
  have fv: "find_visited i v = (entries v i, v0)"
    by (simp add: find_visited_def v0_def)
  have nsel: "id_node n = i" "dependencies n = deps" "kind n = k" "then_node n = th"
    "otherwise n = el" "body n = bd"
    using PlanNode by simp_all
  note A = assms [unfolded PlanNode makeExecutor.simps fv prod.case, folded PlanNode]
  show thesis
  proof (cases "entries v i")
    case (Some e)
    with A show thesis by simp
  next
    case None
    show thesis
    proof (cases "makeExecutor2 q n")
      case (Inl b)
      with A None have "b = a" by simp
      with Inl None nsel show thesis by (intro kind) simp_all
    next
      case (Inr x)
      obtain h q0 where x: "x = (h, q0)" by (cases x)
      note mk = Inr [unfolded x]
      from A None mk have B:
        "(case deps of
            [] \<Rightarrow> Inr (q0, v0)
          | [d0] \<Rightarrow>
             (case
                (if k = kSelect then
                   (case makeExecutor th q0 v0 of
                      Inl a \<Rightarrow> Inl a
                    | Inr (thenB, q1, v1) \<Rightarrow>
                       (case makeExecutor el q1 v1 of
                          Inl a \<Rightarrow> Inl a
                        | Inr (elseB, q2, v2) \<Rightarrow>
                           Inr (setElseBody h elseB (setThenBody h thenB q2), v2)))
                 else if k = kLoop then
                   (case makeExecutor bd q0 v0 of
                      Inl a \<Rightarrow> Inl a
                    | Inr (b, q1, v1) \<Rightarrow> Inr (setLoopBody h b q1, v1))
                 else Inr (q0, v0))
              of
                Inl a \<Rightarrow> Inl a
              | Inr (q3, v3) \<Rightarrow>
                 (case makeExecutor d0 q3 v3 of
                    Inl a \<Rightarrow> Inl a
                  | Inr (dep, q4, v4) \<Rightarrow> Inr (dependsOn h dep q4, v4)))
          | [d0, d1] \<Rightarrow>
             (case makeExecutor d0 q0 v0 of
                Inl a \<Rightarrow> Inl a
              | Inr (left, q1, v1) \<Rightarrow>
                 (case makeExecutor d1 q1 v1 of
                    Inl a \<Rightarrow> Inl a
                  | Inr (right, q2, v2) \<Rightarrow>
                     Inr (dependsOn h right (dependsOn h left q2), v2)))
          | _ \<Rightarrow> Inl (FatalDependencies (length deps))) = Inl a"
        by (simp add: case_sum_Inl_iff)
      show thesis
      proof (cases deps)
        case Nil
        with B show thesis by simp
      next
        case (Cons d0 ds)
        note ds = this
        show thesis
        proof (cases ds)
          case Nil
          have len: "length (dependencies n) \<le> 2" using nsel ds Nil by simp
          show thesis
          proof (cases "k = kSelect")
            case True
            with B ds Nil have
              "makeExecutor th q0 v0 = Inl a \<or>
               (\<exists>(qx :: 'v QueryContext) vx. makeExecutor el qx vx = Inl a) \<or>
               (\<exists>(qx :: 'v QueryContext) vx. makeExecutor d0 qx vx = Inl a)"
              by (auto simp: case_sum_Inl_iff)
            then consider (a) "makeExecutor th q0 v0 = Inl a"
              | (b) qx :: "'v QueryContext" and vx where "makeExecutor el qx vx = Inl a"
              | (c) qx :: "'v QueryContext" and vx where "makeExecutor d0 qx vx = Inl a" by blast
            then show thesis
            proof cases
              case a
              show thesis
                by (rule child [OF _ mk len _ a]) (use None nsel ds Nil True in \<open>simp_all add: kids_def\<close>)
            next
              case b
              show thesis
                by (rule child [OF _ mk len _ b]) (use None nsel ds Nil True in \<open>simp_all add: kids_def\<close>)
            next
              case c
              show thesis
                by (rule child [OF _ mk len _ c]) (use None nsel ds Nil True in \<open>simp_all add: kids_def\<close>)
            qed
          next
            case False
            note ns = this
            show thesis
            proof (cases "k = kLoop")
              case True
              with B ds Nil ns have
                "makeExecutor bd q0 v0 = Inl a \<or> (\<exists>(qx :: 'v QueryContext) vx. makeExecutor d0 qx vx = Inl a)"
                by (auto simp: case_sum_Inl_iff)
              then consider (a) "makeExecutor bd q0 v0 = Inl a"
                | (c) qx :: "'v QueryContext" and vx where "makeExecutor d0 qx vx = Inl a" by blast
              then show thesis
              proof cases
                case a
                show thesis
                  by (rule child [OF _ mk len _ a]) (use None nsel ds Nil True ns in \<open>simp_all add: kids_def\<close>)
              next
                case c
                show thesis
                  by (rule child [OF _ mk len _ c]) (use None nsel ds Nil True ns in \<open>simp_all add: kids_def\<close>)
              qed
            next
              case False
              with B ds Nil ns have c: "makeExecutor d0 q0 v0 = Inl a"
                by (auto simp: case_sum_Inl_iff)
              show thesis
                by (rule child [OF _ mk len _ c]) (use None nsel ds Nil False ns in \<open>simp_all add: kids_def\<close>)
            qed
          qed
        next
          case (Cons d1 ds')
          note ds1 = this
          show thesis
          proof (cases ds')
            case Nil
            have len: "length (dependencies n) \<le> 2" using nsel ds ds1 Nil by simp
            from B ds ds1 Nil have
              "makeExecutor d0 q0 v0 = Inl a \<or> (\<exists>(qx :: 'v QueryContext) vx. makeExecutor d1 qx vx = Inl a)"
              by (auto simp: case_sum_Inl_iff)
            then consider (a) "makeExecutor d0 q0 v0 = Inl a"
              | (c) qx :: "'v QueryContext" and vx where "makeExecutor d1 qx vx = Inl a" by blast
            then show thesis
            proof cases
              case a
              show thesis
                by (rule child [OF _ mk len _ a]) (use None nsel ds ds1 Nil in \<open>simp_all add: kids_def\<close>)
            next
              case c
              show thesis
                by (rule child [OF _ mk len _ c]) (use None nsel ds ds1 Nil in \<open>simp_all add: kids_def\<close>)
            qed
          next
            case (Cons d2 ds'')
            with B ds ds1 have "a = FatalDependencies (length deps)" by simp
            with None mk nsel ds ds1 Cons show thesis by (intro arity) simp_all
          qed
        qed
      qed
    qed
  qed
qed

lemma makeExecutor_Inr_Some: "makeExecutor c q v = Inr r \<Longrightarrow> \<exists>n. c = Some n"
  by (cases c) simp_all

lemma create_Inr:
  "create c q = Inr (h, q') \<longleftrightarrow>
   (\<exists>v'. makeExecutor c q \<lparr>entries = Map.empty, calls = []\<rparr> = Inr (h, q', v'))"
  by (auto simp: create_def split: sum.splits)

lemma create_Inl: "create c q = Inl a \<longleftrightarrow> makeExecutor c q \<lparr>entries = Map.empty, calls = []\<rparr> = Inl a"
  by (auto simp: create_def split: sum.splits)

subsection \<open>The traversal\<close>

lemma self_in_reach: "n \<in> set (reach (Some n))"
  by (cases n) simp

lemma reach_size: "x \<in> set (reach c) \<Longrightarrow> size x < size_option size c"
proof (induction c arbitrary: x rule: reach.induct)
  case 1
  then show ?case by simp
next
  case (2 i k deps ov th el bd)
  show ?case
  proof (cases "x = PlanNode i k deps ov th el bd")
    case True
    then show ?thesis by simp
  next
    case False
    note ne = this
    show ?thesis
    proof (cases deps)
      case Nil
      with "2.prems" ne show ?thesis by simp
    next
      case (Cons d0 ds)
      note ds = this
      show ?thesis
      proof (cases ds)
        case Nil
        from "2.prems" ne ds Nil have
          "(k = kSelect \<and> (x \<in> set (reach th) \<or> x \<in> set (reach el))) \<or>
           (k \<noteq> kSelect \<and> k = kLoop \<and> x \<in> set (reach bd)) \<or> x \<in> set (reach d0)"
          by (auto split: if_splits)
        then show ?thesis
          using "2.IH"(1,2,3,4) [OF ds Nil] ds Nil
          by (elim disjE conjE) (fastforce)+
      next
        case (Cons d1 ds')
        note ds1 = this
        show ?thesis
        proof (cases ds')
          case Nil
          from "2.prems" ne ds ds1 Nil have "x \<in> set (reach d0) \<or> x \<in> set (reach d1)"
            by auto
          then show ?thesis
            using "2.IH"(5,6) [OF ds ds1 Nil] ds ds1 Nil
            by (elim disjE) fastforce+
        next
          case (Cons d2 ds'')
          with "2.prems" ne ds ds1 show ?thesis by simp
        qed
      qed
    qed
  qed
qed

lemma reach_leaf: "dependencies n = [] \<Longrightarrow> reach (Some n) = [n]"
  by (cases n) simp

lemma reach_single:
  "dependencies n = [d0] \<Longrightarrow> kind n \<noteq> kSelect \<Longrightarrow> kind n \<noteq> kLoop \<Longrightarrow>
   reach (Some n) = n # reach d0"
  by (cases n) simp

lemma reach_select:
  "dependencies n = [d0] \<Longrightarrow> kind n = kSelect \<Longrightarrow>
   reach (Some n) = n # reach (then_node n) @ reach (otherwise n) @ reach d0"
  by (cases n) simp

lemma reach_loop:
  "dependencies n = [d0] \<Longrightarrow> kind n \<noteq> kSelect \<Longrightarrow> kind n = kLoop \<Longrightarrow>
   reach (Some n) = n # reach (body n) @ reach d0"
  by (cases n) simp

lemma reach_binary:
  "dependencies n = [d0, d1] \<Longrightarrow> reach (Some n) = n # reach d0 @ reach d1"
  by (cases n) simp

lemma size_child:
  "d \<in> set (dependencies n) \<Longrightarrow> size_option size d \<le> size n"
  "size_option size (then_node n) \<le> size n"
  "size_option size (otherwise n) \<le> size n"
  "size_option size (body n) \<le> size n"
proof -
  obtain i k deps ov th el bd where n: "n = PlanNode i k deps ov th el bd" by (cases n)
  show "size_option size (then_node n) \<le> size n" "size_option size (otherwise n) \<le> size n"
    "size_option size (body n) \<le> size n"
    by (simp_all add: n)
  assume "d \<in> set (dependencies n)"
  then have "d \<in> set deps" by (simp add: n)
  then have "size_option size d \<le> size_list (size_option size) deps"
    by (rule size_list_estimation') simp
  then show "size_option size d \<le> size n" by (simp add: n)
qed

lemma child_smaller:
  assumes "size_option size c \<le> size n" "c = Some n'"
  shows "size n' < size n"
  using assms by simp

lemma reach_children:
  assumes "length (dependencies n) \<le> 2"
  shows "d \<in> set (dependencies n) \<Longrightarrow> set (reach d) \<subseteq> set (reach (Some n))"
    and "length (dependencies n) = 1 \<Longrightarrow> kind n = kSelect \<Longrightarrow>
           set (reach (then_node n)) \<subseteq> set (reach (Some n)) \<and>
           set (reach (otherwise n)) \<subseteq> set (reach (Some n))"
    and "length (dependencies n) = 1 \<Longrightarrow> kind n = kLoop \<Longrightarrow>
           set (reach (body n)) \<subseteq> set (reach (Some n))"
proof -
  obtain i k deps ov th el bd where n: "n = PlanNode i k deps ov th el bd" by (cases n)
  have "length deps \<le> 2" using assms unfolding n by simp
  then consider "deps = []" | d0 where "deps = [d0]" | d0 d1 where "deps = [d0, d1]"
    by (rule list_le2_cases)
  note shapes = this
  show "d \<in> set (dependencies n) \<Longrightarrow> set (reach d) \<subseteq> set (reach (Some n))"
    using shapes unfolding n by cases auto
  show "length (dependencies n) = 1 \<Longrightarrow> kind n = kSelect \<Longrightarrow>
           set (reach (then_node n)) \<subseteq> set (reach (Some n)) \<and>
           set (reach (otherwise n)) \<subseteq> set (reach (Some n))"
    using shapes unfolding n by cases auto
  show "length (dependencies n) = 1 \<Longrightarrow> kind n = kLoop \<Longrightarrow>
           set (reach (body n)) \<subseteq> set (reach (Some n))"
    using shapes unfolding n by cases auto
qed

lemma reach_Some_cases:
  assumes "x \<in> set (reach (Some n))"
  obtains "x = n"
  | d where "length (dependencies n) \<le> 2" "d \<in> set (dependencies n)" "x \<in> set (reach d)"
  | "length (dependencies n) = 1" "kind n = kSelect"
      "x \<in> set (reach (then_node n)) \<or> x \<in> set (reach (otherwise n))"
  | "length (dependencies n) = 1" "kind n = kLoop" "x \<in> set (reach (body n))"
proof -
  obtain i k deps ov th el bd where n: "n = PlanNode i k deps ov th el bd" by (cases n)
  show thesis
  proof (cases "x = n")
    case True
    then show thesis by (rule that(1))
  next
    case False
    note ne = this
    show thesis
    proof (cases deps)
      case Nil
      with assms ne n show thesis by simp
    next
      case (Cons d0 ds)
      note ds = this
      show thesis
      proof (cases ds)
        case Nil
        from assms ne ds Nil n have
          "(k = kSelect \<and> (x \<in> set (reach th) \<or> x \<in> set (reach el))) \<or>
           (k = kLoop \<and> x \<in> set (reach bd)) \<or> x \<in> set (reach d0)"
          by (auto split: if_splits)
        then consider (a) "k = kSelect" "x \<in> set (reach th) \<or> x \<in> set (reach el)"
          | (b) "k = kLoop" "x \<in> set (reach bd)" | (c) "x \<in> set (reach d0)"
          by blast
        then show thesis
        proof cases
          case a
          show thesis by (rule that(3)) (use a ds Nil n in simp_all)
        next
          case b
          show thesis by (rule that(4)) (use b ds Nil n in simp_all)
        next
          case c
          show thesis by (rule that(2) [of d0]) (use c ds Nil n in simp_all)
        qed
      next
        case (Cons d1 ds')
        note ds1 = this
        show thesis
        proof (cases ds')
          case Nil
          from assms ne ds ds1 Nil n have "x \<in> set (reach d0) \<or> x \<in> set (reach d1)"
            by auto
          then consider (a) "x \<in> set (reach d0)" | (b) "x \<in> set (reach d1)" by blast
          then show thesis
          proof cases
            case a
            show thesis by (rule that(2) [of d0]) (use a ds ds1 Nil n in simp_all)
          next
            case b
            show thesis by (rule that(2) [of d1]) (use b ds ds1 Nil n in simp_all)
          qed
        next
          case (Cons d2 ds'')
          with assms ne ds ds1 n show thesis by simp
        qed
      qed
    qed
  qed
qed

lemma reach_closed: "x \<in> set (reach c) \<Longrightarrow> set (reach (Some x)) \<subseteq> set (reach c)"
proof (induction c arbitrary: x rule: measure_induct_rule [where f = "size_option size"])
  case (less c)
  show ?case
  proof (cases c)
    case None
    with less.prems show ?thesis by simp
  next
    case (Some n)
    from less.prems [unfolded Some] show ?thesis
    proof (cases rule: reach_Some_cases)
      case 1
      then show ?thesis using Some by simp
    next
      case (2 d)
      from size_child(1) [OF 2(2)] Some have "size_option size d < size_option size c" by simp
      from less.IH [OF this 2(3)] reach_children(1) [OF 2(1,2)] Some show ?thesis by blast
    next
      case 3
      have "size_option size (then_node n) < size_option size c"
        "size_option size (otherwise n) < size_option size c"
        using size_child(2,3) [of n] Some by simp_all
      with less.IH 3(3) reach_children(2) [OF _ 3(1,2)] 3(1) Some show ?thesis
        by (metis le_numeral_extra(4) one_le_numeral subset_trans)
    next
      case 4
      have "size_option size (body n) < size_option size c"
        using size_child(4) [of n] Some by simp
      from less.IH [OF this 4(3)] reach_children(3) [OF _ 4(1,2)] 4(1) Some show ?thesis
        by (metis one_le_numeral subset_trans)
    qed
  qed
qed

lemma kids_shapes:
  "dependencies n = [] \<Longrightarrow> kids n = []"
  "dependencies n = [d0] \<Longrightarrow> kind n \<noteq> kSelect \<Longrightarrow> kind n \<noteq> kLoop \<Longrightarrow> kids n = [d0]"
  "dependencies n = [d0] \<Longrightarrow> kind n = kSelect \<Longrightarrow> kids n = [then_node n, otherwise n, d0]"
  "dependencies n = [d0] \<Longrightarrow> kind n \<noteq> kSelect \<Longrightarrow> kind n = kLoop \<Longrightarrow> kids n = [body n, d0]"
  "dependencies n = [d0, d1] \<Longrightarrow> kids n = [d0, d1]"
  by (simp_all add: kids_def)

lemma kids_subset:
  "set (kids n) \<subseteq> set (dependencies n) \<union> {then_node n, otherwise n, body n}"
proof (cases "length (dependencies n) \<le> 2")
  case True
  then show ?thesis
    by (cases "dependencies n" rule: list_le2_cases) (auto simp: kids_def)
next
  case False
  then obtain a b c ys where "dependencies n = a # b # c # ys"
    using list_gt2 [of "dependencies n"] by auto
  then show ?thesis by (simp add: kids_def)
qed

lemma kids_size: "c \<in> set (kids n) \<Longrightarrow> size_option size c \<le> size n"
proof -
  assume "c \<in> set (kids n)"
  with kids_subset [of n]
  have "c \<in> set (dependencies n) \<or> c = then_node n \<or> c = otherwise n \<or> c = body n"
    by auto
  with size_child(1) [of c n] size_child(2,3,4) [of n] show ?thesis by blast
qed

lemma reach_kids:
  assumes "length (dependencies n) \<le> 2" "c \<in> set (kids n)"
  shows "set (reach c) \<subseteq> set (reach (Some n))"
proof -
  from assms(1) show ?thesis
  proof (cases "dependencies n" rule: list_le2_cases)
    case 1
    with assms(2) show ?thesis by (simp add: kids_def)
  next
    case (2 a)
    then have l1: "length (dependencies n) = 1" by simp
    from assms(2) 2 have
      "c = a \<or> (kind n = kSelect \<and> (c = then_node n \<or> c = otherwise n)) \<or>
       (kind n = kLoop \<and> c = body n)"
      by (auto simp: kids_def split: if_splits)
    with reach_children(1) [OF assms(1), of a] reach_children(2) [OF assms(1) l1]
      reach_children(3) [OF assms(1) l1] 2
    show ?thesis by auto
  next
    case (3 a b)
    with assms(2) have "c \<in> set (dependencies n)" by (simp add: kids_def)
    from reach_children(1) [OF assms(1) this] show ?thesis .
  qed
qed

lemma fresh_id:
  assumes "inj_on id_node U" "n \<in> U" "set (reach c) \<subseteq> U" "size_option size c \<le> size n"
  shows "id_node n \<notin> id_node ` set (reach c)"
proof
  assume "id_node n \<in> id_node ` set (reach c)"
  then obtain x where x: "x \<in> set (reach c)" "id_node x = id_node n" by auto
  from x(1) assms(3) have "x \<in> U" by blast
  from inj_onD [OF assms(1) x(2) this assms(2)] have "x = n" .
  with reach_size [OF x(1)] assms(4) show False by simp
qed

subsection \<open>The invariant of the map\<close>

lemma memo_of_mono: "m \<subseteq>\<^sub>m m' \<Longrightarrow> memo_of m c = Some h \<Longrightarrow> memo_of m' c = Some h"
  by (cases c) (simp_all add: memo_of_def map_le_Some)

lemma map_memo_of_mono:
  assumes "m \<subseteq>\<^sub>m m'" "map Some hs = map (memo_of m) ds"
  shows "map Some hs = map (memo_of m') ds"
  using assms(2)
proof (induction ds arbitrary: hs)
  case Nil
  then show ?case by simp
next
  case (Cons d ds)
  then obtain x xs where hs: "hs = x # xs" by (cases hs) auto
  with Cons.prems have a: "memo_of m d = Some x" and b: "map Some xs = map (memo_of m) ds"
    by simp_all
  from Cons.IH [OF b] memo_of_mono [OF assms(1) a] hs show ?case by simp
qed

lemma linked_mono:
  assumes "m \<subseteq>\<^sub>m m'" "linked m e"
  shows "linked m' e"
proof -
  note mm = memo_of_mono [OF assms(1)]
  from assms(2) have a1: "length (dependencies (node e)) \<le> 2"
    and a2: "map Some (depends e) = map (memo_of m) (dependencies (node e))"
    and a3: "length (dependencies (node e)) = 1 \<and> kind (node e) = kSelect \<longrightarrow>
        (\<exists>ht he. thenBody e = Some ht \<and> memo_of m (then_node (node e)) = Some ht \<and>
                 elseBody e = Some he \<and> memo_of m (otherwise (node e)) = Some he)"
    and a4: "length (dependencies (node e)) = 1 \<and> kind (node e) = kLoop \<longrightarrow>
        (\<exists>hb. loopBody e = Some hb \<and> memo_of m (body (node e)) = Some hb)"
    unfolding linked_def by blast+
  have b2: "map Some (depends e) = map (memo_of m') (dependencies (node e))"
    by (rule map_memo_of_mono [OF assms(1) a2])
  have b3: "length (dependencies (node e)) = 1 \<and> kind (node e) = kSelect \<longrightarrow>
        (\<exists>ht he. thenBody e = Some ht \<and> memo_of m' (then_node (node e)) = Some ht \<and>
                 elseBody e = Some he \<and> memo_of m' (otherwise (node e)) = Some he)"
    using a3 mm by blast
  have b4: "length (dependencies (node e)) = 1 \<and> kind (node e) = kLoop \<longrightarrow>
        (\<exists>hb. loopBody e = Some hb \<and> memo_of m' (body (node e)) = Some hb)"
    using a4 mm by blast
  show ?thesis unfolding linked_def using a1 b2 b3 b4 by blast
qed

lemma memo_inv_range: "memo_inv U P m \<Longrightarrow> m j = Some hh \<Longrightarrow> hh < length P"
  unfolding memo_inv_def by blast

lemma memo_invD:
  assumes "memo_inv U P m" "m i = Some h"
  shows "h < length P" "exec_id (P ! h) = i" "id_node (node (P ! h)) = i" "node (P ! h) \<in> U"
    "linked m (P ! h)" "executorClass (kind (node (P ! h))) = Some (exec_class (P ! h))"
  using assms unfolding memo_inv_def by blast+

lemma memo_invI:
  assumes "\<And>i h. m i = Some h \<Longrightarrow>
        h < length P \<and> exec_id (P ! h) = i \<and> id_node (node (P ! h)) = i \<and>
        node (P ! h) \<in> U \<and> linked m (P ! h) \<and>
        executorClass (kind (node (P ! h))) = Some (exec_class (P ! h))"
  shows "memo_inv U P m"
  unfolding memo_inv_def using assms by blast

lemma memo_inv_append: "memo_inv U P m \<Longrightarrow> memo_inv U (P @ [e]) m"
proof (rule memo_invI)
  fix i h
  assume a: "memo_inv U P m" and b: "m i = Some h"
  note d = memo_invD [OF a b]
  from d(1) have "(P @ [e]) ! h = P ! h" by (simp add: nth_append)
  with d show "h < length (P @ [e]) \<and> exec_id ((P @ [e]) ! h) = i \<and>
        id_node (node ((P @ [e]) ! h)) = i \<and> node ((P @ [e]) ! h) \<in> U \<and>
        linked m ((P @ [e]) ! h) \<and>
        executorClass (kind (node ((P @ [e]) ! h))) = Some (exec_class ((P @ [e]) ! h))"
    by simp
qed

lemma memo_inv_empty: "memo_inv U P Map.empty"
  by (simp add: memo_inv_def)

lemma memo_inv_linked: "memo_inv U P m \<Longrightarrow> m i = Some h \<Longrightarrow> linked m (P ! h)"
  by (rule memo_invD(5))

lemma linked_deps:
  assumes "linked m e" "d \<in> set (dependencies (node e))"
  shows "\<exists>h. memo_of m d = Some h"
proof -
  from assms(1) have "map Some (depends e) = map (memo_of m) (dependencies (node e))"
    unfolding linked_def by blast
  then have "memo_of m d \<in> set (map Some (depends e))" using assms(2) by simp
  then show ?thesis by auto
qed

lemma linked_leaf:
  "dependencies (node e) = [] \<Longrightarrow> depends e = [] \<Longrightarrow> linked m e"
  by (simp add: linked_def)

lemma linked_single:
  "dependencies (node e) = [d0] \<Longrightarrow> kind (node e) \<noteq> kSelect \<Longrightarrow> kind (node e) \<noteq> kLoop \<Longrightarrow>
   depends e = [hdep] \<Longrightarrow> memo_of m d0 = Some hdep \<Longrightarrow> linked m e"
  by (simp add: linked_def)

lemma linked_select:
  "dependencies (node e) = [d0] \<Longrightarrow> kind (node e) = kSelect \<Longrightarrow>
   depends e = [hdep] \<Longrightarrow> memo_of m d0 = Some hdep \<Longrightarrow>
   thenBody e = Some ht \<Longrightarrow> memo_of m (then_node (node e)) = Some ht \<Longrightarrow>
   elseBody e = Some he \<Longrightarrow> memo_of m (otherwise (node e)) = Some he \<Longrightarrow> linked m e"
  by (simp add: linked_def)

lemma linked_loop:
  "dependencies (node e) = [d0] \<Longrightarrow> kind (node e) \<noteq> kSelect \<Longrightarrow> kind (node e) = kLoop \<Longrightarrow>
   depends e = [hdep] \<Longrightarrow> memo_of m d0 = Some hdep \<Longrightarrow>
   loopBody e = Some hb \<Longrightarrow> memo_of m (body (node e)) = Some hb \<Longrightarrow> linked m e"
  by (simp add: linked_def)

lemma linked_binary:
  "dependencies (node e) = [d0, d1] \<Longrightarrow> depends e = [hl, hr] \<Longrightarrow>
   memo_of m d0 = Some hl \<Longrightarrow> memo_of m d1 = Some hr \<Longrightarrow> linked m e"
  by (simp add: linked_def)

subsection \<open>The steps of a call\<close>

lemma mid_start:
  assumes "memo_inv U P m" "n \<in> U" "exec_id e = id_node n" "node e = n"
    "executorClass (kind n) = Some (exec_class e)"
  shows "mid U P m n {} (P @ [e]) m"
  unfolding mid_def
  using memo_inv_append [OF assms(1)] memo_inv_range [OF assms(1)] assms(2-5)
  by (auto simp: nth_append)

lemma mid_call:
  assumes "mid U P m n S Px mx" "call_post U Px mx c hc Py my"
  shows "mid U P m n (S \<union> id_node ` set (reach c)) Py my"
    and "Py ! length P = Px ! length P"
    and "memo_of my c = Some hc"
    and "mx \<subseteq>\<^sub>m my"
proof -
  from assms(1) have lP: "length P < length Px" and tk: "take (length P) Px = P"
    and ex: "exec_id (Px ! length P) = id_node n" and nd: "node (Px ! length P) = n"
    and cl: "executorClass (kind n) = Some (exec_class (Px ! length P))"
    and le: "m \<subseteq>\<^sub>m mx"
    and old: "\<And>j hh. m j = Some hh \<Longrightarrow> hh < length P"
    and new: "\<And>j hh. mx j = Some hh \<Longrightarrow> m j = None \<Longrightarrow> length P < hh"
    and rng: "\<And>k. length P < k \<Longrightarrow> k < length Px \<Longrightarrow> mx (exec_id (Px ! k)) = Some k"
    and dm: "dom mx \<subseteq> dom m \<union> S"
    unfolding mid_def by blast+
  from assms(2) have l2: "length Px \<le> length Py" and tk2: "take (length Px) Py = Px"
    and inv2: "memo_inv U Py my" and le2: "mx \<subseteq>\<^sub>m my"
    and new2: "\<And>j hh. my j = Some hh \<Longrightarrow> mx j = None \<Longrightarrow> length Px \<le> hh"
    and rng2: "\<And>k. length Px \<le> k \<Longrightarrow> k < length Py \<Longrightarrow> my (exec_id (Py ! k)) = Some k"
    and dm2: "dom my \<subseteq> dom mx \<union> id_node ` set (reach c)"
    and mo: "memo_of my c = Some hc"
    unfolding call_post_def by blast+
  have nth: "Py ! k = Px ! k" if "k < length Px" for k
    using take_nth_eq [OF tk2 that] .
  show "Py ! length P = Px ! length P" using nth lP by simp
  show "memo_of my c = Some hc" by (rule mo)
  show "mx \<subseteq>\<^sub>m my" by (rule le2)
  have 1: "length P < length Py" using lP l2 by simp
  have 2: "take (length P) Py = P"
    using take_take_le [OF tk2, of "length P"] lP tk by simp
  have 3: "exec_id (Py ! length P) = id_node n" "node (Py ! length P) = n"
    "executorClass (kind n) = Some (exec_class (Py ! length P))"
    using nth [OF lP] ex nd cl by simp_all
  have 4: "m \<subseteq>\<^sub>m my" using le le2 by (rule map_le_trans)
  have 5: "length P < hh" if "my j = Some hh" "m j = None" for j hh
  proof (cases "mx j")
    case None
    from new2 [OF that(1) None] lP show ?thesis by simp
  next
    case (Some x)
    with le2 have "my j = Some x" by (simp add: map_le_Some)
    with that(1) have "x = hh" by simp
    with new [OF Some that(2)] show ?thesis by simp
  qed
  have 6: "my (exec_id (Py ! k)) = Some k" if "length P < k" "k < length Py" for k
  proof (cases "k < length Px")
    case True
    from rng [OF that(1) True] have "mx (exec_id (Px ! k)) = Some k" .
    with le2 nth [OF True] show ?thesis by (simp add: map_le_Some)
  next
    case False
    with rng2 [of k] that(2) show ?thesis by simp
  qed
  have 7: "dom my \<subseteq> dom m \<union> (S \<union> id_node ` set (reach c))"
    using dm dm2 by blast
  show "mid U P m n (S \<union> id_node ` set (reach c)) Py my"
    unfolding mid_def using 1 2 3 inv2 4 old 5 6 7 by blast
qed

lemma mid_handle_ne:
  assumes "mid U P m n S Px mx" "mx j = Some hh"
  shows "hh \<noteq> length P"
proof (cases "m j")
  case None
  with assms have "length P < hh" unfolding mid_def by blast
  then show ?thesis by simp
next
  case (Some x)
  from assms(1) have le: "m \<subseteq>\<^sub>m mx" and old: "\<And>j hh. m j = Some hh \<Longrightarrow> hh < length P"
    unfolding mid_def by blast+
  from le Some have "mx j = Some x" by (simp add: map_le_Some)
  with assms(2) old [OF Some] show ?thesis by simp
qed

lemma mid_update:
  assumes "mid U P m n S Px mx" "exec_id e = id_node n" "node e = n"
    "executorClass (kind n) = Some (exec_class e)"
  shows "mid U P m n S (Px[length P := e]) mx"
proof -
  from assms(1) have lP: "length P < length Px" and tk: "take (length P) Px = P"
    and inv: "memo_inv U Px mx"
    and le: "m \<subseteq>\<^sub>m mx"
    and old: "\<And>j hh. m j = Some hh \<Longrightarrow> hh < length P"
    and new: "\<And>j hh. mx j = Some hh \<Longrightarrow> m j = None \<Longrightarrow> length P < hh"
    and rng: "\<And>k. length P < k \<Longrightarrow> k < length Px \<Longrightarrow> mx (exec_id (Px ! k)) = Some k"
    and dm: "dom mx \<subseteq> dom m \<union> S"
    unfolding mid_def by blast+
  let ?Q = "Px[length P := e]"
  have 1: "length P < length ?Q" using lP by simp
  have 2: "take (length P) ?Q = P" using tk by simp
  have 3: "exec_id (?Q ! length P) = id_node n" "node (?Q ! length P) = n"
    "executorClass (kind n) = Some (exec_class (?Q ! length P))"
    using lP assms(2,3,4) by simp_all
  have 4: "memo_inv U ?Q mx"
  proof (rule memo_invI)
    fix i h assume a: "mx i = Some h"
    from mid_handle_ne [OF assms(1) a] have "?Q ! h = Px ! h" by simp
    with memo_invD [OF inv a] show "h < length ?Q \<and> exec_id (?Q ! h) = i \<and>
        id_node (node (?Q ! h)) = i \<and> node (?Q ! h) \<in> U \<and> linked mx (?Q ! h) \<and>
        executorClass (kind (node (?Q ! h))) = Some (exec_class (?Q ! h))"
      by simp
  qed
  have 6: "mx (exec_id (?Q ! k)) = Some k" if "length P < k" "k < length ?Q" for k
    using rng [of k] that by simp
  show ?thesis
    unfolding mid_def using 1 2 3 4 le old new 6 dm by blast
qed

lemma mid_finish:
  assumes "mid U P m n S Px mx" "m (id_node n) = None" "id_node n \<notin> S" "n \<in> U"
    "linked mx (Px ! length P)" "S \<subseteq> id_node ` set (reach (Some n))"
  shows "call_post U P m (Some n) (length P) Px (mx(id_node n \<mapsto> length P))"
proof -
  from assms(1) have lP: "length P < length Px" and tk: "take (length P) Px = P"
    and ex: "exec_id (Px ! length P) = id_node n" and nd: "node (Px ! length P) = n"
    and cl: "executorClass (kind n) = Some (exec_class (Px ! length P))"
    and inv: "memo_inv U Px mx"
    and le: "m \<subseteq>\<^sub>m mx"
    and old: "\<And>j hh. m j = Some hh \<Longrightarrow> hh < length P"
    and new: "\<And>j hh. mx j = Some hh \<Longrightarrow> m j = None \<Longrightarrow> length P < hh"
    and rng: "\<And>k. length P < k \<Longrightarrow> k < length Px \<Longrightarrow> mx (exec_id (Px ! k)) = Some k"
    and dm: "dom mx \<subseteq> dom m \<union> S"
    unfolding mid_def by blast+
  let ?i = "id_node n" and ?b = "length P"
  let ?m' = "mx(?i \<mapsto> ?b)"
  have none: "mx ?i = None" using dm assms(2,3) by blast
  have le': "mx \<subseteq>\<^sub>m ?m'" using none by (auto simp: map_le_def)
  have 1: "memo_inv U Px ?m'"
  proof (rule memo_invI)
    fix j h assume a: "?m' j = Some h"
    show "h < length Px \<and> exec_id (Px ! h) = j \<and> id_node (node (Px ! h)) = j \<and>
        node (Px ! h) \<in> U \<and> linked ?m' (Px ! h) \<and>
        executorClass (kind (node (Px ! h))) = Some (exec_class (Px ! h))"
    proof (cases "j = ?i")
      case True
      with a have "h = ?b" by simp
      with True lP ex nd cl assms(4) linked_mono [OF le' assms(5)] show ?thesis by simp
    next
      case False
      with a have "mx j = Some h" by simp
      from memo_invD [OF inv this] linked_mono [OF le'] show ?thesis by blast
    qed
  qed
  have 2: "m \<subseteq>\<^sub>m ?m'" using le le' by (rule map_le_trans)
  have 3: "?b \<le> hh" if "?m' j = Some hh" "m j = None" for j hh
  proof (cases "j = ?i")
    case True
    with that show ?thesis by simp
  next
    case False
    with that new [of j hh] show ?thesis by simp
  qed
  have 4: "?m' (exec_id (Px ! k)) = Some k" if "?b \<le> k" "k < length Px" for k
  proof (cases "k = ?b")
    case True
    with ex show ?thesis by simp
  next
    case False
    with that have "mx (exec_id (Px ! k)) = Some k" using rng [of k] by simp
    with none show ?thesis by (cases "exec_id (Px ! k) = ?i") simp_all
  qed
  have 5: "dom ?m' \<subseteq> dom m \<union> id_node ` set (reach (Some n))"
    using dm assms(6) self_in_reach [of n] by auto
  have 6: "memo_of ?m' (Some n) = Some ?b" by (simp add: memo_of_def)
  show ?thesis
    unfolding call_post_def using lP tk 1 2 3 4 5 6 by (simp add: less_imp_le)
qed

lemma mid_None:
  assumes "mid U P m n S Px mx" "m (id_node n) = None" "id_node n \<notin> S"
  shows "mx (id_node n) = None"
proof -
  from assms(1) have "dom mx \<subseteq> dom m \<union> S" unfolding mid_def by blast
  with assms(2,3) show ?thesis by blast
qed

lemma mid_inv: "mid U P m n S Px mx \<Longrightarrow> memo_inv U Px mx"
  unfolding mid_def by blast

lemma mid_at: "mid U P m n S Px mx \<Longrightarrow> exec_id (Px ! length P) = id_node n \<and> node (Px ! length P) = n \<and> length P < length Px"
  unfolding mid_def by blast

lemma mid_close:
  assumes "mid U P m n S (objPool q5) (entries v5)" "m (id_node n) = None"
    "id_node n \<notin> S" "n \<in> U" "linked (entries v5) (objPool q5 ! length P)"
    "S \<subseteq> id_node ` set (reach (Some n))"
  shows "call_post U P m (Some n) (length P) (objPool q5)
           (entries (insert_visited (id_node n) (length P) v5))"
  using mid_finish [OF assms] mid_None [OF assms(1-3)]
  by (simp add: entries_insert_visited)

lemma call_post_hit:
  "memo_inv U P m \<Longrightarrow> m (id_node n) = Some h \<Longrightarrow> call_post U P m (Some n) h P m"
  by (auto simp: call_post_def memo_of_def)

lemma call_post_emptyD:
  assumes "call_post U P Map.empty c h P' m'"
  shows "length P \<le> length P'" "take (length P) P' = P" "memo_inv U P' m'"
    "\<And>j hh. m' j = Some hh \<Longrightarrow> length P \<le> hh"
    "\<And>k. length P \<le> k \<Longrightarrow> k < length P' \<Longrightarrow> m' (exec_id (P' ! k)) = Some k"
    "dom m' \<subseteq> id_node ` set (reach c)"
    "memo_of m' c = Some h"
proof -
  from assms have a: "length P \<le> length P'" and b: "take (length P) P' = P"
    and c: "memo_inv U P' m'"
    and d: "\<forall>j hh. m' j = Some hh \<longrightarrow> Map.empty j = (None :: nat option) \<longrightarrow> length P \<le> hh"
    and e: "\<forall>k. length P \<le> k \<and> k < length P' \<longrightarrow> m' (exec_id (P' ! k)) = Some k"
    and f: "dom m' \<subseteq> dom (Map.empty :: int64 \<rightharpoonup> nat) \<union> id_node ` set (reach c)"
    and g: "memo_of m' c = Some h"
    unfolding call_post_def by blast+
  show "length P \<le> length P'" "take (length P) P' = P" "memo_inv U P' m'"
    "memo_of m' c = Some h" by (rule a b c g)+
  show "length P \<le> hh" if "m' j = Some hh" for j hh using d that by simp
  show "m' (exec_id (P' ! k)) = Some k" if "length P \<le> k" "k < length P'" for k
    using e that by blast
  show "dom m' \<subseteq> id_node ` set (reach c)" using f by simp
qed

subsection \<open>Every returning call establishes its postcondition\<close>

lemma build_main:
  assumes inj: "inj_on id_node U"
  shows "set (reach (Some n)) \<subseteq> U \<Longrightarrow> memo_inv U (objPool (q :: 'v QueryContext)) (entries v) \<Longrightarrow>
         makeExecutor (Some n) q v = Inr (h, q', v') \<Longrightarrow>
         call_post U (objPool q) (entries v) (Some n) h (objPool q') (entries v')"
proof (induction n arbitrary: q v h q' v' rule: measure_induct_rule [where f = size])
  case (less n)
  note sub = less.prems(1) and inv = less.prems(2) and run = less.prems(3)
  have nU: "n \<in> U" using sub self_in_reach [of n] by blast
  let ?P = "objPool q" and ?m = "entries v" and ?i = "id_node n"
  let ?v0 = "snd (find_visited ?i v)"
  have child: "call_post U (objPool qx) (entries vx) c hc (objPool qy) (entries vy)"
    if "size_option size c \<le> size n" "set (reach c) \<subseteq> U"
      "mid U ?P ?m n S (objPool qx) (entries vx)" "makeExecutor c qx vx = Inr (hc, qy, vy)"
    for c and qx :: "'v QueryContext" and vx hc qy vy S
  proof -
    from makeExecutor_Inr_Some [OF that(4)] obtain n' where c: "c = Some n'" by blast
    from child_smaller [OF that(1) c] have "size n' < size n" .
    from less.IH [OF this that(2) [unfolded c] mid_inv [OF that(3)] that(4) [unfolded c]] c
    show ?thesis by simp
  qed
  have start: "\<exists>e. objPool q0 = ?P @ [e] \<and> exec_id e = ?i \<and> node e = n \<and> depends e = [] \<and>
      executorClass (kind n) = Some (exec_class e) \<and> mid U ?P ?m n {} (objPool q0) ?m"
    and hlen: "h = length ?P"
    if "makeExecutor2 q n = Inr (h, q0)" for q0 :: "'v QueryContext"
  proof -
    from makeExecutor2_Inr(2) [OF that] obtain c where "executorClass (kind n) = Some c"
      "objPool q0 = ?P @ [\<lparr>exec_class = c, exec_id = id_node n, node = n, depends = [],
         thenBody = None, elseBody = None, loopBody = None, numRows = 0, execTime = 0,
         totalDuration = Duration 0\<rparr>]" by blast
    with mid_start [OF inv nU, of "\<lparr>exec_class = c, exec_id = id_node n, node = n, depends = [],
         thenBody = None, elseBody = None, loopBody = None, numRows = 0, execTime = 0,
         totalDuration = Duration 0\<rparr>"]
    show "\<exists>e. objPool q0 = ?P @ [e] \<and> exec_id e = ?i \<and> node e = n \<and> depends e = [] \<and>
      executorClass (kind n) = Some (exec_class e) \<and> mid U ?P ?m n {} (objPool q0) ?m"
      by simp
    show "h = length ?P" by (rule makeExecutor2_Inr(1) [OF that])
  qed
  from run show ?case
  proof (cases rule: makeExecutor_Some_cases)
    case hit
    with call_post_hit [OF inv hit(1)] show ?thesis by simp
  next
    case leaf
    from start [OF leaf(3)] obtain e where e: "objPool q' = ?P @ [e]" "depends e = []"
      "node e = n" and m0: "mid U ?P ?m n {} (objPool q') ?m" by blast
    have lk: "linked ?m (objPool q' ! length ?P)"
      using e leaf(2) by (intro linked_leaf) simp_all
    from mid_close [of U ?P ?m n "{}" q' ?v0, OF _ leaf(1) _ nU] m0 lk
    show ?thesis unfolding leaf(4) hlen [OF leaf(3)] by simp
  next
    case (single q0 d0 hdep q4 v4)
    let ?b = "length ?P"
    note hb = hlen [OF single(5)]
    from start [OF single(5)] obtain e where e: "objPool q0 = ?P @ [e]" "depends e = []"
      "node e = n" "exec_id e = ?i" "executorClass (kind n) = Some (exec_class e)" and m0: "mid U ?P ?m n {} (objPool q0) ?m" by blast
    have rs: "set (reach (Some n)) = insert n (set (reach d0))"
      using reach_single [OF single(2,3,4)] by simp
    have s0: "size_option size d0 \<le> size n" using size_child(1) [of d0 n] single(2) by simp
    have r0: "set (reach d0) \<subseteq> U" using sub rs by blast
    from m0 have m0': "mid U ?P ?m n {} (objPool q0) (entries ?v0)" by simp
    from mid_call [OF m0' child [OF s0 r0 m0' single(6)]]
    have m4: "mid U ?P ?m n ({} \<union> id_node ` set (reach d0)) (objPool q4) (entries v4)"
      and at4: "objPool q4 ! ?b = objPool q0 ! ?b" and mo4: "memo_of (entries v4) d0 = Some hdep"
      by blast+
    have at4': "objPool q4 ! ?b = e" using at4 e(1) by simp
    let ?e5 = "e\<lparr>depends := [hdep]\<rparr>"
    have p5: "objPool q' = (objPool q4)[?b := ?e5]"
      unfolding single(7) hb using at4' e(2) by simp
    from mid_update [OF m4, of ?e5] e(3,4,5)
    have m5: "mid U ?P ?m n ({} \<union> id_node ` set (reach d0)) (objPool q') (entries v4)"
      unfolding p5 by simp
    have at5: "objPool q' ! ?b = ?e5" using mid_at [OF m4] unfolding p5 by simp
    have lk: "linked (entries v4) (objPool q' ! ?b)"
      unfolding at5 using e(3) single(2,3,4) mo4 by (intro linked_single [of _ d0 hdep]) simp_all
    have fr: "?i \<notin> {} \<union> id_node ` set (reach d0)"
      using fresh_id [OF inj nU r0 s0] by simp
    have ss: "{} \<union> id_node ` set (reach d0) \<subseteq> id_node ` set (reach (Some n))"
      using rs by auto
    from mid_close [OF m5 single(1) fr nU lk ss]
    show ?thesis unfolding single(8) hb by simp
  next
    case (select q0 d0 ht q1 v1 he q2 v2 hdep q4 v4)
    let ?b = "length ?P"
    let ?th = "then_node n" and ?el = "otherwise n"
    note hb = hlen [OF select(4)]
    from start [OF select(4)] obtain e where e: "objPool q0 = ?P @ [e]" "depends e = []"
      "node e = n" "exec_id e = ?i" "executorClass (kind n) = Some (exec_class e)" and m0: "mid U ?P ?m n {} (objPool q0) ?m" by blast
    have rs: "set (reach (Some n)) =
        insert n (set (reach ?th) \<union> set (reach ?el) \<union> set (reach d0))"
      using reach_select [OF select(2,3)] by auto
    have s0: "size_option size d0 \<le> size n" using size_child(1) [of d0 n] select(2) by simp
    have r0: "set (reach d0) \<subseteq> U" and rt: "set (reach ?th) \<subseteq> U"
      and re: "set (reach ?el) \<subseteq> U" using sub rs by blast+
    from m0 have m0': "mid U ?P ?m n {} (objPool q0) (entries ?v0)" by simp
    from mid_call [OF m0' child [OF size_child(2) rt m0' select(5)]]
    have m1: "mid U ?P ?m n ({} \<union> id_node ` set (reach ?th)) (objPool q1) (entries v1)"
      and at1: "objPool q1 ! ?b = objPool q0 ! ?b" and mo1: "memo_of (entries v1) ?th = Some ht"
      by blast+
    from mid_call [OF m1 child [OF size_child(3) re m1 select(6)]]
    have m2: "mid U ?P ?m n ({} \<union> id_node ` set (reach ?th) \<union> id_node ` set (reach ?el))
        (objPool q2) (entries v2)"
      and at2: "objPool q2 ! ?b = objPool q1 ! ?b" and mo2: "memo_of (entries v2) ?el = Some he"
      and le2: "entries v1 \<subseteq>\<^sub>m entries v2"
      by blast+
    have at2': "objPool q2 ! ?b = e" using at2 at1 e(1) by simp
    let ?q3 = "setElseBody h he (setThenBody h ht q2)"
    let ?e3 = "e\<lparr>thenBody := Some ht, elseBody := Some he\<rparr>"
    have p3: "objPool ?q3 = (objPool q2)[?b := ?e3]"
      unfolding hb using at2' mid_at [OF m2] by simp
    from mid_update [OF m2, of ?e3] e(3,4,5)
    have m3: "mid U ?P ?m n ({} \<union> id_node ` set (reach ?th) \<union> id_node ` set (reach ?el))
        (objPool ?q3) (entries v2)"
      unfolding p3 by simp
    have at3: "objPool ?q3 ! ?b = ?e3" using mid_at [OF m2] unfolding p3 by simp
    from mid_call [OF m3 child [OF s0 r0 m3 select(7)]]
    have m4: "mid U ?P ?m n ({} \<union> id_node ` set (reach ?th) \<union> id_node ` set (reach ?el)
        \<union> id_node ` set (reach d0)) (objPool q4) (entries v4)"
      and at4: "objPool q4 ! ?b = objPool ?q3 ! ?b" and mo4: "memo_of (entries v4) d0 = Some hdep"
      and le4: "entries v2 \<subseteq>\<^sub>m entries v4"
      by blast+
    have at4': "objPool q4 ! ?b = ?e3" using at4 at3 by simp
    let ?e5 = "e\<lparr>thenBody := Some ht, elseBody := Some he, depends := [hdep]\<rparr>"
    have p5: "objPool q' = (objPool q4)[?b := ?e5]"
      unfolding select(8) hb using at4' e(2) by simp
    from mid_update [OF m4, of ?e5] e(3,4,5)
    have m5: "mid U ?P ?m n ({} \<union> id_node ` set (reach ?th) \<union> id_node ` set (reach ?el)
        \<union> id_node ` set (reach d0)) (objPool q') (entries v4)"
      unfolding p5 by simp
    have at5: "objPool q' ! ?b = ?e5" using mid_at [OF m4] unfolding p5 by simp
    have mt: "memo_of (entries v4) ?th = Some ht"
      by (rule memo_of_mono [OF le4 memo_of_mono [OF le2 mo1]])
    have me: "memo_of (entries v4) ?el = Some he"
      by (rule memo_of_mono [OF le4 mo2])
    have lk: "linked (entries v4) (objPool q' ! ?b)"
      unfolding at5 using e(3) select(2,3) mo4 mt me
      by (intro linked_select [of _ d0 hdep _ ht he]) simp_all
    have fr: "?i \<notin> {} \<union> id_node ` set (reach ?th) \<union> id_node ` set (reach ?el)
        \<union> id_node ` set (reach d0)"
      using fresh_id [OF inj nU r0 s0] fresh_id [OF inj nU rt size_child(2)]
        fresh_id [OF inj nU re size_child(3)] by simp
    have ss: "{} \<union> id_node ` set (reach ?th) \<union> id_node ` set (reach ?el)
        \<union> id_node ` set (reach d0) \<subseteq> id_node ` set (reach (Some n))"
      using rs by auto
    from mid_close [OF m5 select(1) fr nU lk ss]
    show ?thesis unfolding select(9) hb by simp
  next
    case (loop q0 d0 hb q1 v1 hdep q4 v4)
    let ?b = "length ?P"
    let ?bd = "body n"
    note hb = hlen [OF loop(5)]
    from start [OF loop(5)] obtain e where e: "objPool q0 = ?P @ [e]" "depends e = []"
      "node e = n" "exec_id e = ?i" "executorClass (kind n) = Some (exec_class e)" and m0: "mid U ?P ?m n {} (objPool q0) ?m" by blast
    have rs: "set (reach (Some n)) = insert n (set (reach ?bd) \<union> set (reach d0))"
      using reach_loop [OF loop(2,3,4)] by auto
    have s0: "size_option size d0 \<le> size n" using size_child(1) [of d0 n] loop(2) by simp
    have r0: "set (reach d0) \<subseteq> U" and rb: "set (reach ?bd) \<subseteq> U"
      using sub rs by blast+
    from m0 have m0': "mid U ?P ?m n {} (objPool q0) (entries ?v0)" by simp
    from mid_call [OF m0' child [OF size_child(4) rb m0' loop(6)]]
    have m1: "mid U ?P ?m n ({} \<union> id_node ` set (reach ?bd)) (objPool q1) (entries v1)"
      and at1: "objPool q1 ! ?b = objPool q0 ! ?b" and mo1: "memo_of (entries v1) ?bd = Some hb"
      by blast+
    have at1': "objPool q1 ! ?b = e" using at1 e(1) by simp
    let ?q3 = "setLoopBody h hb q1"
    let ?e3 = "e\<lparr>loopBody := Some hb\<rparr>"
    have p3: "objPool ?q3 = (objPool q1)[?b := ?e3]"
      unfolding hb using at1' by simp
    from mid_update [OF m1, of ?e3] e(3,4,5)
    have m3: "mid U ?P ?m n ({} \<union> id_node ` set (reach ?bd)) (objPool ?q3) (entries v1)"
      unfolding p3 by simp
    have at3: "objPool ?q3 ! ?b = ?e3" using mid_at [OF m1] unfolding p3 by simp
    from mid_call [OF m3 child [OF s0 r0 m3 loop(7)]]
    have m4: "mid U ?P ?m n ({} \<union> id_node ` set (reach ?bd) \<union> id_node ` set (reach d0))
        (objPool q4) (entries v4)"
      and at4: "objPool q4 ! ?b = objPool ?q3 ! ?b" and mo4: "memo_of (entries v4) d0 = Some hdep"
      and le4: "entries v1 \<subseteq>\<^sub>m entries v4"
      by blast+
    have at4': "objPool q4 ! ?b = ?e3" using at4 at3 by simp
    let ?e5 = "e\<lparr>loopBody := Some hb, depends := [hdep]\<rparr>"
    have p5: "objPool q' = (objPool q4)[?b := ?e5]"
      unfolding loop(8) hb using at4' e(2) by simp
    from mid_update [OF m4, of ?e5] e(3,4,5)
    have m5: "mid U ?P ?m n ({} \<union> id_node ` set (reach ?bd) \<union> id_node ` set (reach d0))
        (objPool q') (entries v4)"
      unfolding p5 by simp
    have at5: "objPool q' ! ?b = ?e5" using mid_at [OF m4] unfolding p5 by simp
    have mb: "memo_of (entries v4) ?bd = Some hb"
      by (rule memo_of_mono [OF le4 mo1])
    have lk: "linked (entries v4) (objPool q' ! ?b)"
      unfolding at5 using e(3) loop(2,3,4) mo4 mb
      by (intro linked_loop [of _ d0 hdep _ hb]) simp_all
    have fr: "?i \<notin> {} \<union> id_node ` set (reach ?bd) \<union> id_node ` set (reach d0)"
      using fresh_id [OF inj nU r0 s0] fresh_id [OF inj nU rb size_child(4)] by simp
    have ss: "{} \<union> id_node ` set (reach ?bd) \<union> id_node ` set (reach d0)
        \<subseteq> id_node ` set (reach (Some n))"
      using rs by auto
    from mid_close [OF m5 loop(1) fr nU lk ss]
    show ?thesis unfolding loop(9) hb by simp
  next
    case (binary q0 d0 d1 hl q1 v1 hr q2 v2)
    let ?b = "length ?P"
    note hb = hlen [OF binary(3)]
    from start [OF binary(3)] obtain e where e: "objPool q0 = ?P @ [e]" "depends e = []"
      "node e = n" "exec_id e = ?i" "executorClass (kind n) = Some (exec_class e)" and m0: "mid U ?P ?m n {} (objPool q0) ?m" by blast
    have rs: "set (reach (Some n)) = insert n (set (reach d0) \<union> set (reach d1))"
      using reach_binary [OF binary(2)] by auto
    have s0: "size_option size d0 \<le> size n" using size_child(1) [of d0 n] binary(2) by simp
    have s1: "size_option size d1 \<le> size n" using size_child(1) [of d1 n] binary(2) by simp
    have r0: "set (reach d0) \<subseteq> U" and r1: "set (reach d1) \<subseteq> U"
      using sub rs by blast+
    from m0 have m0': "mid U ?P ?m n {} (objPool q0) (entries ?v0)" by simp
    from mid_call [OF m0' child [OF s0 r0 m0' binary(4)]]
    have m1: "mid U ?P ?m n ({} \<union> id_node ` set (reach d0)) (objPool q1) (entries v1)"
      and at1: "objPool q1 ! ?b = objPool q0 ! ?b" and mo1: "memo_of (entries v1) d0 = Some hl"
      by blast+
    from mid_call [OF m1 child [OF s1 r1 m1 binary(5)]]
    have m2: "mid U ?P ?m n ({} \<union> id_node ` set (reach d0) \<union> id_node ` set (reach d1))
        (objPool q2) (entries v2)"
      and at2: "objPool q2 ! ?b = objPool q1 ! ?b" and mo2: "memo_of (entries v2) d1 = Some hr"
      and le2: "entries v1 \<subseteq>\<^sub>m entries v2"
      by blast+
    have at2': "objPool q2 ! ?b = e" using at2 at1 e(1) by simp
    let ?e5 = "e\<lparr>depends := [hl, hr]\<rparr>"
    have p5: "objPool q' = (objPool q2)[?b := ?e5]"
      unfolding binary(6) hb using at2' e(2) mid_at [OF m2] by simp
    from mid_update [OF m2, of ?e5] e(3,4,5)
    have m5: "mid U ?P ?m n ({} \<union> id_node ` set (reach d0) \<union> id_node ` set (reach d1))
        (objPool q') (entries v2)"
      unfolding p5 by simp
    have at5: "objPool q' ! ?b = ?e5" using mid_at [OF m2] unfolding p5 by simp
    have ml: "memo_of (entries v2) d0 = Some hl"
      by (rule memo_of_mono [OF le2 mo1])
    have lk: "linked (entries v2) (objPool q' ! ?b)"
      unfolding at5 using e(3) binary(2) mo2 ml
      by (intro linked_binary [of _ d0 d1 hl hr]) simp_all
    have fr: "?i \<notin> {} \<union> id_node ` set (reach d0) \<union> id_node ` set (reach d1)"
      using fresh_id [OF inj nU r0 s0] fresh_id [OF inj nU r1 s1] by simp
    have ss: "{} \<union> id_node ` set (reach d0) \<union> id_node ` set (reach d1)
        \<subseteq> id_node ` set (reach (Some n))"
      using rs by auto
    from mid_close [OF m5 binary(1) fr nU lk ss]
    show ?thesis unfolding binary(7) hb by simp
  qed
qed

subsection \<open>The graph a build creates\<close>

lemma memo_node:
  assumes "inj_on id_node U" "memo_inv U P m" "memo_of m c = Some h" "set (reach c) \<subseteq> U"
  shows "c = Some (node (P ! h))" and "h < length P"
proof -
  from assms(3) obtain n where c: "c = Some n" and m: "m (id_node n) = Some h"
    by (cases c) (simp_all add: memo_of_def)
  from assms(4) c self_in_reach [of n] have nU: "n \<in> U" by blast
  from assms(2) m have h: "h < length P" and i: "id_node (node (P ! h)) = id_node n"
    and u: "node (P ! h) \<in> U"
    unfolding memo_inv_def by blast+
  from inj_onD [OF assms(1) i u nU] c show "c = Some (node (P ! h))" by simp
  show "h < length P" by (rule h)
qed

lemma memo_lower:
  assumes "\<forall>j hh. m j = Some hh \<longrightarrow> b \<le> hh" "memo_of m c = Some h"
  shows "b \<le> h"
  using assms by (cases c) (auto simp: memo_of_def)

lemma memo_closed:
  assumes "inj_on id_node U" "memo_inv U P m"
  shows "set (reach c) \<subseteq> U \<Longrightarrow> memo_of m c = Some h \<Longrightarrow> x \<in> set (reach c) \<Longrightarrow>
         m (id_node x) \<noteq> None"
proof (induction c arbitrary: h x rule: measure_induct_rule [where f = "size_option size"])
  case (less c)
  note sub = less.prems(1) and mo = less.prems(2) and x = less.prems(3)
  from memo_node [OF assms mo sub] have c: "c = Some (node (P ! h))" by simp
  define n where "n = node (P ! h)"
  from mo c n_def have mh: "m (id_node n) = Some h" by (simp add: memo_of_def)
  from memo_inv_linked [OF assms(2) mh] have lk: "linked m (P ! h)" .
  from x c n_def have "x \<in> set (reach (Some n))" by simp
  then show ?case
  proof (cases rule: reach_Some_cases)
    case 1
    with mh show ?thesis by simp
  next
    case (2 d)
    from linked_deps [OF lk] 2(2) n_def obtain h' where h': "memo_of m d = Some h'" by blast
    from size_child(1) [OF 2(2)] c n_def have sz: "size_option size d < size_option size c" by simp
    from reach_children(1) [OF 2(1,2)] sub c n_def have "set (reach d) \<subseteq> U" by auto
    from less.IH [OF sz this h' 2(3)] show ?thesis .
  next
    case 3
    from lk 3(1,2) n_def obtain ht he where
      t: "memo_of m (then_node n) = Some ht" and e: "memo_of m (otherwise n) = Some he"
      unfolding linked_def by auto
    have sz: "size_option size (then_node n) < size_option size c"
        "size_option size (otherwise n) < size_option size c"
      using size_child(2,3) [of n] c n_def by simp_all
    have "length (dependencies n) \<le> 2" using 3(1) by simp
    from reach_children(2) [OF this 3(1,2)] sub c n_def
    have ss: "set (reach (then_node n)) \<subseteq> U" "set (reach (otherwise n)) \<subseteq> U" by auto
    from 3(3) less.IH [OF sz(1) ss(1) t] less.IH [OF sz(2) ss(2) e] show ?thesis by blast
  next
    case 4
    from lk 4(1,2) n_def obtain hb where
      b: "memo_of m (body n) = Some hb"
      unfolding linked_def by auto
    have sz: "size_option size (body n) < size_option size c"
      using size_child(4) [of n] c n_def by simp
    have "length (dependencies n) \<le> 2" using 4(1) by simp
    from reach_children(3) [OF this 4(1,2)] sub c n_def
    have ss: "set (reach (body n)) \<subseteq> U" by auto
    from less.IH [OF sz ss b 4(3)] show ?thesis .
  qed
qed

lemma map_memo_nodes:
  assumes "inj_on id_node U" "memo_inv U P m" "\<forall>j hh. m j = Some hh \<longrightarrow> b \<le> hh"
  shows "map Some hs = map (memo_of m) ds \<Longrightarrow> \<forall>d\<in>set ds. set (reach d) \<subseteq> U \<Longrightarrow>
         map (\<lambda>h. Some (node (P ! h))) hs = ds \<and> (\<forall>h\<in>set hs. b \<le> h \<and> h < length P)"
proof (induction ds arbitrary: hs)
  case Nil
  then show ?case by simp
next
  case (Cons d ds)
  then obtain x xs where hs: "hs = x # xs" by (cases hs) auto
  with Cons.prems have a: "memo_of m d = Some x" and b: "map Some xs = map (memo_of m) ds"
    by simp_all
  from Cons.prems(2) have r: "set (reach d) \<subseteq> U" and rs: "\<forall>d\<in>set ds. set (reach d) \<subseteq> U"
    by simp_all
  from memo_node [OF assms(1,2) a r] memo_lower [OF assms(3) a] Cons.IH [OF b rs] hs
  show ?case by simp
qed

lemma linked_wired:
  assumes "inj_on id_node U" "memo_inv U P m" "m i = Some h"
    "set (reach (Some (node (P ! h)))) \<subseteq> U" "\<forall>j hh. m j = Some hh \<longrightarrow> b \<le> hh"
  shows "wired b P (P ! h)"
proof -
  let ?e = "P ! h" and ?n = "node (P ! h)"
  from memo_inv_linked [OF assms(2,3)] have lk: "linked m ?e" .
  then have len: "length (dependencies ?n) \<le> 2"
    and mp: "map Some (depends ?e) = map (memo_of m) (dependencies ?n)"
    unfolding linked_def by blast+
  have "\<forall>d\<in>set (dependencies ?n). set (reach d) \<subseteq> U"
    using reach_children(1) [OF len] assms(4) by blast
  from map_memo_nodes [OF assms(1,2,5) mp this]
  have 1: "\<forall>h \<in> set (depends ?e). b \<le> h \<and> h < length P"
    and 2: "map (\<lambda>h. Some (node (P ! h))) (depends ?e) = dependencies ?n" by blast+
  have 3: "\<exists>ht he. thenBody ?e = Some ht \<and> b \<le> ht \<and> ht < length P \<and>
                 then_node ?n = Some (node (P ! ht)) \<and>
                 elseBody ?e = Some he \<and> b \<le> he \<and> he < length P \<and>
                 otherwise ?n = Some (node (P ! he))"
    if s: "length (dependencies ?n) = 1" "kind ?n = kSelect"
  proof -
    from lk s obtain ht he where t: "thenBody ?e = Some ht" "memo_of m (then_node ?n) = Some ht"
      and e: "elseBody ?e = Some he" "memo_of m (otherwise ?n) = Some he"
      unfolding linked_def by auto
    from reach_children(2) [OF len s] assms(4)
    have ss: "set (reach (then_node ?n)) \<subseteq> U" "set (reach (otherwise ?n)) \<subseteq> U" by auto
    from memo_node [OF assms(1,2) t(2) ss(1)] memo_node [OF assms(1,2) e(2) ss(2)] t(1) e(1)
      memo_lower [OF assms(5) t(2)] memo_lower [OF assms(5) e(2)]
    show ?thesis by simp
  qed
  have 4: "\<exists>hb. loopBody ?e = Some hb \<and> b \<le> hb \<and> hb < length P \<and>
      body ?n = Some (node (P ! hb))"
    if s: "length (dependencies ?n) = 1" "kind ?n = kLoop"
  proof -
    from lk s obtain hb where b: "loopBody ?e = Some hb" "memo_of m (body ?n) = Some hb"
      unfolding linked_def by auto
    from reach_children(3) [OF len s] assms(4)
    have ss: "set (reach (body ?n)) \<subseteq> U" by auto
    from memo_node [OF assms(1,2) b(2) ss] b(1) memo_lower [OF assms(5) b(2)]
    show ?thesis by simp
  qed
  show ?thesis unfolding wired_def using len 1 2 3 4 by blast
qed

lemma wired_edge: "wired b P e \<Longrightarrow> edge e h \<Longrightarrow> b \<le> h \<and> h < length P"
  unfolding wired_def edge_def by auto

lemma create_graph:
  assumes inj: "inj_on id_node (set (reach (Some root)))"
    and run: "create (Some root) q = Inr (h, q')"
  shows "take (length (objPool q)) (objPool q') = objPool q"
    and "length (objPool q) \<le> length (objPool q')"
    and "bij_betw (\<lambda>k. exec_id (objPool q' ! k)) {length (objPool q)..<length (objPool q')}
           (id_node ` set (reach (Some root)))"
    and "\<And>k. length (objPool q) \<le> k \<Longrightarrow> k < length (objPool q') \<Longrightarrow>
           node (objPool q' ! k) \<in> set (reach (Some root)) \<and>
           exec_id (objPool q' ! k) = id_node (node (objPool q' ! k)) \<and>
           executorClass (kind (node (objPool q' ! k))) = Some (exec_class (objPool q' ! k)) \<and>
           wired (length (objPool q)) (objPool q') (objPool q' ! k)"
    and "length (objPool q) \<le> h \<and> h < length (objPool q') \<and> node (objPool q' ! h) = root"
proof -
  let ?U = "set (reach (Some root))" and ?P = "objPool q" and ?P' = "objPool q'"
  let ?f = "\<lambda>k. exec_id (?P' ! k)"
  from run obtain v' where
    mk: "makeExecutor (Some root) q \<lparr>entries = Map.empty, calls = []\<rparr> = Inr (h, q', v')"
    unfolding create_Inr by blast
  define m' where "m' = entries v'"
  have "memo_inv ?U ?P (entries \<lparr>entries = Map.empty, calls = []\<rparr>)"
    by (simp add: memo_inv_empty)
  from build_main [OF inj subset_refl this mk]
  have cp: "call_post ?U ?P Map.empty (Some root) h ?P' m'" by (simp add: m'_def)
  note len = call_post_emptyD(1) [OF cp] and tk = call_post_emptyD(2) [OF cp]
    and inv = call_post_emptyD(3) [OF cp] and new = call_post_emptyD(4) [OF cp]
    and rng = call_post_emptyD(5) [OF cp] and dm = call_post_emptyD(6) [OF cp]
    and mo = call_post_emptyD(7) [OF cp]
  show "take (length ?P) ?P' = ?P" by (rule tk)
  show "length ?P \<le> length ?P'" by (rule len)
  have i1: "inj_on ?f {length ?P..<length ?P'}"
  proof (rule inj_onI)
    fix a b assume a: "a \<in> {length ?P..<length ?P'}" and b: "b \<in> {length ?P..<length ?P'}"
      and ab: "?f a = ?f b"
    from a have la: "length ?P \<le> a" "a < length ?P'" by simp_all
    from b have lb: "length ?P \<le> b" "b < length ?P'" by simp_all
    have "Some a = m' (?f a)" using rng [OF la] by (rule sym)
    also have "\<dots> = m' (?f b)" by (simp only: ab)
    also have "\<dots> = Some b" by (rule rng [OF lb])
    finally show "a = b" by (simp only: option.inject)
  qed
  have i2: "?f ` {length ?P..<length ?P'} = id_node ` ?U"
  proof (intro equalityI subsetI)
    fix y assume "y \<in> ?f ` {length ?P..<length ?P'}"
    then obtain k where k: "length ?P \<le> k" "k < length ?P'" "y = ?f k" by auto
    from rng [OF k(1,2)] k(3) have "y \<in> dom m'" by (simp add: domI)
    with dm show "y \<in> id_node ` ?U" by blast
  next
    fix y assume "y \<in> id_node ` ?U"
    then obtain x where x: "x \<in> ?U" "y = id_node x" by (rule imageE)
    from memo_closed [OF inj inv subset_refl mo x(1)] obtain k where k: "m' (id_node x) = Some k"
      by (cases "m' (id_node x)") simp_all
    from memo_invD(1,2) [OF inv k] new [OF k] x(2)
    have "k \<in> {length ?P..<length ?P'}" "y = ?f k" by simp_all
    then show "y \<in> ?f ` {length ?P..<length ?P'}" by (rule image_eqI [rotated])
  qed
  show "bij_betw ?f {length ?P..<length ?P'} (id_node ` ?U)"
    unfolding bij_betw_def using i1 i2 by (rule conjI)
  show "node (?P' ! k) \<in> ?U \<and> ?f k = id_node (node (?P' ! k)) \<and>
      executorClass (kind (node (?P' ! k))) = Some (exec_class (?P' ! k)) \<and> wired (length ?P) ?P' (?P' ! k)"
    if "length ?P \<le> k" "k < length ?P'" for k
  proof -
    from rng [OF that] have mk: "m' (?f k) = Some k" .
    note a = memo_invD(4) [OF inv mk] and b = memo_invD(3) [OF inv mk]
      and c = memo_invD(6) [OF inv mk]
    from reach_closed [OF a] have "set (reach (Some (node (?P' ! k)))) \<subseteq> ?U" .
    have "\<forall>j hh. m' j = Some hh \<longrightarrow> length ?P \<le> hh" using new by blast
    from linked_wired [OF inj inv mk \<open>set (reach (Some (node (?P' ! k)))) \<subseteq> ?U\<close> this] a b c
    show ?thesis by simp
  qed
  from memo_node [OF inj inv mo subset_refl] have r: "Some root = Some (node (?P' ! h))"
    and hl: "h < length ?P'" .
  from mo have "m' (id_node root) = Some h" by (simp add: memo_of_def)
  from new [OF this] r hl
  show "length ?P \<le> h \<and> h < length ?P' \<and> node (?P' ! h) = root" by simp
qed

lemma create_reached_known:
  assumes inj: "inj_on id_node (set (reach (Some root)))"
    and run: "create (Some root) q = Inr (h, q')"
    and x: "x \<in> set (reach (Some root))"
  shows "\<exists>k. length (objPool q) \<le> k \<and> k < length (objPool q') \<and> node (objPool q' ! k) = x \<and>
           executorClass (kind x) = Some (exec_class (objPool q' ! k)) \<and>
           wired (length (objPool q)) (objPool q') (objPool q' ! k)"
proof -
  note g = create_graph [OF inj run]
  from g(3) x have "id_node x \<in> (\<lambda>k. exec_id (objPool q' ! k)) ` {length (objPool q)..<length (objPool q')}"
    unfolding bij_betw_def by blast
  then obtain k where k: "length (objPool q) \<le> k" "k < length (objPool q')"
    "exec_id (objPool q' ! k) = id_node x" by auto
  from g(4) [OF k(1,2)] have a: "node (objPool q' ! k) \<in> set (reach (Some root))"
    and b: "exec_id (objPool q' ! k) = id_node (node (objPool q' ! k))"
    and c: "executorClass (kind (node (objPool q' ! k))) = Some (exec_class (objPool q' ! k))"
    and d: "wired (length (objPool q)) (objPool q') (objPool q' ! k)" by blast+
  from b k(3) have "id_node (node (objPool q' ! k)) = id_node x" by simp
  from inj_onD [OF inj this a x] have "node (objPool q' ! k) = x" .
  with k c d show ?thesis by blast
qed

subsection \<open>The query context\<close>

lemma frame_refl: "frame q q"
  by (auto simp: frame_def)

lemma frame_trans:
  assumes "frame q q1" "frame q1 q2"
  shows "frame q q2"
proof -
  from assms(1) have a1: "length (objPool q) \<le> length (objPool q1)"
    and a2: "\<And>k. k < length (objPool q) \<Longrightarrow> node (objPool q1 ! k) = node (objPool q ! k)"
    and a3: "ectx q \<subseteq>\<^sub>m ectx q1" and a4: "rctx q1 = rctx q"
    and a5: "profilingData q1 = profilingData q"
    and a6: "\<And>k. length (objPool q) \<le> k \<Longrightarrow> k < length (objPool q1) \<Longrightarrow>
        outputVar (node (objPool q1 ! k)) \<in> dom (ectx q1)"
    unfolding frame_def by blast+
  from assms(2) have b1: "length (objPool q1) \<le> length (objPool q2)"
    and b2: "\<And>k. k < length (objPool q1) \<Longrightarrow> node (objPool q2 ! k) = node (objPool q1 ! k)"
    and b3: "ectx q1 \<subseteq>\<^sub>m ectx q2" and b4: "rctx q2 = rctx q1"
    and b5: "profilingData q2 = profilingData q1"
    and b6: "\<And>k. length (objPool q1) \<le> k \<Longrightarrow> k < length (objPool q2) \<Longrightarrow>
        outputVar (node (objPool q2 ! k)) \<in> dom (ectx q2)"
    unfolding frame_def by blast+
  have c2: "node (objPool q2 ! k) = node (objPool q ! k)" if "k < length (objPool q)" for k
    using a2 [OF that] b2 [of k] a1 that by simp
  have c6: "outputVar (node (objPool q2 ! k)) \<in> dom (ectx q2)"
    if "length (objPool q) \<le> k" "k < length (objPool q2)" for k
  proof (cases "k < length (objPool q1)")
    case True
    from a6 [OF that(1) True] b2 [OF True] map_le_implies_dom_le [OF b3] show ?thesis by auto
  next
    case False
    with b6 [of k] that(2) show ?thesis by simp
  qed
  have c3: "ectx q \<subseteq>\<^sub>m ectx q2" using a3 b3 by (rule map_le_trans)
  show ?thesis
    unfolding frame_def using a1 b1 c2 c3 a4 b4 a5 b5 c6 by auto
qed

lemma frame_makeExecutor2:
  assumes "makeExecutor2 q n = Inr (h, q0)"
  shows "frame q q0"
proof -
  from makeExecutor2_Inr [OF assms] obtain e where
    p: "objPool q0 = objPool q @ [e]" "node e = n"
    and ec: "ectx q0 = (if ectx q (outputVar n) = None then (ectx q)(outputVar n \<mapsto> None) else ectx q)"
    and r: "rctx q0 = rctx q" "profilingData q0 = profilingData q"
    by (metis Executor.select_convs(3))
  have le: "ectx q \<subseteq>\<^sub>m ectx q0" unfolding ec by (auto simp: map_le_def)
  have sl: "outputVar n \<in> dom (ectx q0)" unfolding ec by auto
  show ?thesis
    unfolding frame_def using p le sl r
    by (auto simp: nth_append less_Suc_eq)
qed

lemma frame_update:
  assumes "objPool q' = (objPool q)[h := e]" "node e = node (objPool q ! h)"
    "ectx q' = ectx q" "rctx q' = rctx q" "profilingData q' = profilingData q"
  shows "frame q q'"
proof -
  have n: "node (objPool q' ! k) = node (objPool q ! k)" for k
    unfolding assms(1) using assms(2)
    by (cases "k = h"; cases "h < length (objPool q)"; simp add: list_update_beyond)
  show ?thesis
    unfolding frame_def using n assms(1,3,4,5) by auto
qed

lemma frame_links:
  "frame q (dependsOn h d q)" "frame q (setThenBody h d q)"
  "frame q (setElseBody h d q)" "frame q (setLoopBody h d q)"
proof -
  show "frame q (dependsOn h d q)"
    by (rule frame_update [of _ _ h "(objPool q ! h)\<lparr>depends := depends (objPool q ! h) @ [d]\<rparr>"])
      simp_all
  show "frame q (setThenBody h d q)"
    by (rule frame_update [of _ _ h "(objPool q ! h)\<lparr>thenBody := Some d\<rparr>"]) simp_all
  show "frame q (setElseBody h d q)"
    by (rule frame_update [of _ _ h "(objPool q ! h)\<lparr>elseBody := Some d\<rparr>"]) simp_all
  show "frame q (setLoopBody h d q)"
    by (rule frame_update [of _ _ h "(objPool q ! h)\<lparr>loopBody := Some d\<rparr>"]) simp_all
qed

lemma build_frame:
  "makeExecutor c q v = Inr (h, q', v') \<Longrightarrow> frame q q'"
proof (induction c arbitrary: q v h q' v' rule: measure_induct_rule [where f = "size_option size"])
  case (less c)
  from makeExecutor_Inr_Some [OF less.prems] obtain n where c: "c = Some n" by blast
  have child: "frame qx qy"
    if "size_option size d \<le> size n" "makeExecutor d qx vx = Inr (hx, qy, vy)"
    for d and qx :: "'a QueryContext" and vx hx qy vy
    using less.IH [of d qx vx hx qy vy] that c by simp
  from less.prems [unfolded c] show ?case
  proof (cases rule: makeExecutor_Some_cases)
    case hit
    then show ?thesis by (simp add: frame_refl)
  next
    case leaf
    then show ?thesis by (simp add: frame_makeExecutor2)
  next
    case (single q0 d0 hdep q4 v4)
    have s0: "size_option size d0 \<le> size n" using size_child(1) [of d0 n] single(2) by simp
    from frame_makeExecutor2 [OF single(5)] child [OF s0 single(6)] frame_links(1) [of q4 h hdep]
    show ?thesis unfolding single(7) by (blast intro: frame_trans)
  next
    case (select q0 d0 ht q1 v1 he q2 v2 hdep q4 v4)
    have s0: "size_option size d0 \<le> size n" using size_child(1) [of d0 n] select(2) by simp
    from frame_makeExecutor2 [OF select(4)] child [OF size_child(2) select(5)]
      child [OF size_child(3) select(6)] frame_links(2) [of q2 h ht]
      frame_links(3) [of "setThenBody h ht q2" h he] child [OF s0 select(7)]
      frame_links(1) [of q4 h hdep]
    show ?thesis unfolding select(8) by (blast intro: frame_trans)
  next
    case (loop q0 d0 hb q1 v1 hdep q4 v4)
    have s0: "size_option size d0 \<le> size n" using size_child(1) [of d0 n] loop(2) by simp
    from frame_makeExecutor2 [OF loop(5)] child [OF size_child(4) loop(6)]
      frame_links(4) [of q1 h hb] child [OF s0 loop(7)]
      frame_links(1) [of q4 h hdep]
    show ?thesis unfolding loop(8) by (blast intro: frame_trans)
  next
    case (binary q0 d0 d1 hl q1 v1 hr q2 v2)
    have s0: "size_option size d0 \<le> size n" using size_child(1) [of d0 n] binary(2) by simp
    have s1: "size_option size d1 \<le> size n" using size_child(1) [of d1 n] binary(2) by simp
    from frame_makeExecutor2 [OF binary(3)] child [OF s0 binary(4)] child [OF s1 binary(5)]
      frame_links(1) [of q2 h hl] frame_links(1) [of "dependsOn h hl q2" h hr]
    show ?thesis unfolding binary(6) by (blast intro: frame_trans)
  qed
qed

subsection \<open>Aborts\<close>

lemma aborts_Some:
  "aborts (Some n) =
     (if executorClass (kind n) = None then {FatalUnknownKind (kind n)}
      else if 2 < length (dependencies n) then {FatalDependencies (length (dependencies n))}
      else \<Union> (aborts ` set (kids n)))"
proof (cases n)
  case (PlanNode i k deps ov th el bd)
  show ?thesis
  proof (cases "length deps \<le> 2")
    case True
    then show ?thesis
      by (cases deps rule: list_le2_cases) (auto simp: PlanNode kids_def)
  next
    case False
    then obtain d0 d1 d2 ds where "deps = d0 # d1 # d2 # ds"
      using list_gt2 [of deps] by auto
    with False show ?thesis by (simp add: PlanNode)
  qed
qed

lemma abort_sound:
  "makeExecutor c (q :: 'v QueryContext) v = Inl a \<Longrightarrow> a \<in> aborts c"
proof (induction c arbitrary: q v rule: measure_induct_rule [where f = "size_option size"])
  case (less c)
  show ?case
  proof (cases c)
    case None
    with less.prems show ?thesis by simp
  next
    case (Some n)
    from less.prems [unfolded Some] show ?thesis
    proof (cases rule: makeExecutor_Inl_cases)
      case kind
      from makeExecutor2_Inl [OF kind(2)] show ?thesis
        unfolding Some aborts_Some by simp
    next
      case (arity h q0)
      from makeExecutor2_Inr_class [OF arity(2)] arity(3,4) show ?thesis
        unfolding Some aborts_Some by simp
    next
      case (child h q0 c' qx vx)
      from kids_size [OF child(4)] Some have "size_option size c' < size_option size c" by simp
      from less.IH [OF this child(5)] have "a \<in> aborts c'" .
      with makeExecutor2_Inr_class [OF child(2)] child(3,4) show ?thesis
        unfolding Some aborts_Some by auto
    qed
  qed
qed

lemma build_total:
  assumes "aborts c = {}"
  shows "\<exists>h q' v'. makeExecutor c (q :: 'v QueryContext) v = Inr (h, q', v')"
proof (cases "makeExecutor c q v")
  case (Inl a)
  from abort_sound [OF this] assms show ?thesis by simp
next
  case (Inr r)
  then show ?thesis by (cases r) auto
qed

lemma fatal_kind:
  assumes "entries v (id_node n) = None" "executorClass (kind n) = None"
  shows "makeExecutor (Some n) q v = Inl (FatalUnknownKind (kind n))"
  using assms
  by (cases n) (simp add: find_visited_def makeExecutor2_def)

lemma fatal_arity:
  assumes "entries v (id_node n) = None" "executorClass (kind n) \<noteq> None"
    "2 < length (dependencies n)"
  shows "makeExecutor (Some n) q v = Inl (FatalDependencies (length (dependencies n)))"
proof (cases n)
  case (PlanNode i k deps ov th el bd)
  from assms(3) PlanNode obtain d0 d1 d2 ds where d: "deps = d0 # d1 # d2 # ds"
    using list_gt2 [of deps] by auto
  from assms(2) PlanNode obtain c where c: "executorClass k = Some c" by auto
  show ?thesis
    using assms(1) unfolding PlanNode d
    by (simp add: find_visited_def makeExecutor2_def c Executor_init_def pool_add_def)
qed

lemma aborts_reach:
  "a \<in> aborts c \<Longrightarrow>
   a = DCheckNodeNull \<or>
   (\<exists>x\<in>set (reach c).
      (a = FatalUnknownKind (kind x) \<and> executorClass (kind x) = None) \<or>
      (a = FatalDependencies (length (dependencies x)) \<and> 2 < length (dependencies x)))"
proof (induction c rule: measure_induct_rule [where f = "size_option size"])
  case (less c)
  show ?case
  proof (cases c)
    case None
    with less.prems show ?thesis by simp
  next
    case (Some n)
    note sn = self_in_reach [of n]
    consider (k) "executorClass (kind n) = None"
      | (d) "executorClass (kind n) \<noteq> None" "2 < length (dependencies n)"
      | (c) "executorClass (kind n) \<noteq> None" "length (dependencies n) \<le> 2"
      by fastforce
    then show ?thesis
    proof cases
      case k
      with less.prems Some sn show ?thesis by (auto simp: aborts_Some)
    next
      case d
      with less.prems Some sn show ?thesis by (auto simp: aborts_Some)
    next
      case c
      with less.prems Some obtain c' where c': "c' \<in> set (kids n)" "a \<in> aborts c'"
        by (auto simp: aborts_Some)
      from kids_size [OF c'(1)] Some have "size_option size c' < size_option size c" by simp
      from less.IH [OF this c'(2)] reach_kids [OF c(2) c'(1)] Some show ?thesis by blast
    qed
  qed
qed

lemma executorClass_None: "executorClass k = None \<longleftrightarrow> k = kUnknown"
  by (cases k) simp_all

subsection \<open>The calls on the map\<close>

lemma calls_lookup_first:
  "makeExecutor c (q :: 'v QueryContext) v = Inr (h, q', v') \<Longrightarrow>
   \<exists>n ops. c = Some n \<and> calls v' = calls v @ Find (id_node n) (entries v (id_node n)) # ops"
proof (induction c arbitrary: q v h q' v' rule: measure_induct_rule [where f = "size_option size"])
  case (less c)
  from makeExecutor_Inr_Some [OF less.prems] obtain n where c: "c = Some n" by blast
  have child: "\<exists>ops. calls vy = calls vx @ ops"
    if "size_option size d \<le> size n" "makeExecutor d qx vx = Inr (hx, qy, vy)"
    for d and qx :: "'v QueryContext" and vx hx qy vy
    using less.IH [of d qx vx hx qy vy] that c by auto
  from less.prems [unfolded c] show ?case
  proof (cases rule: makeExecutor_Some_cases)
    case hit
    then show ?thesis using c by simp
  next
    case leaf
    then show ?thesis using c by simp
  next
    case (single q0 d0 hdep q4 v4)
    have s0: "size_option size d0 \<le> size n" using size_child(1) [of d0 n] single(2) by simp
    from child [OF s0 single(6)] show ?thesis
      unfolding single(8) using c single(1) by auto
  next
    case (select q0 d0 ht q1 v1 he q2 v2 hdep q4 v4)
    have s0: "size_option size d0 \<le> size n" using size_child(1) [of d0 n] select(2) by simp
    from child [OF size_child(2) select(5)] child [OF size_child(3) select(6)]
      child [OF s0 select(7)]
    show ?thesis
      unfolding select(9) using c select(1) by auto
  next
    case (loop q0 d0 hb q1 v1 hdep q4 v4)
    have s0: "size_option size d0 \<le> size n" using size_child(1) [of d0 n] loop(2) by simp
    from child [OF size_child(4) loop(6)] child [OF s0 loop(7)]
    show ?thesis
      unfolding loop(9) using c loop(1) by auto
  next
    case (binary q0 d0 d1 hl q1 v1 hr q2 v2)
    have s0: "size_option size d0 \<le> size n" using size_child(1) [of d0 n] binary(2) by simp
    have s1: "size_option size d1 \<le> size n" using size_child(1) [of d1 n] binary(2) by simp
    from child [OF s0 binary(4)] child [OF s1 binary(5)]
    show ?thesis
      unfolding binary(7) using c binary(1) by auto
  qed
qed

lemma recorded_trans:
  assumes "recorded v v1" "recorded v1 v2"
  shows "recorded v v2"
proof -
  from assms(1) obtain o1 where a: "entries v \<subseteq>\<^sub>m entries v1" "calls v1 = calls v @ o1"
    "\<And>i k. Find i (Some k) \<in> set o1 \<Longrightarrow> entries v1 i = Some k"
    unfolding recorded_def by blast
  from assms(2) obtain o2 where b: "entries v1 \<subseteq>\<^sub>m entries v2" "calls v2 = calls v1 @ o2"
    "\<And>i k. Find i (Some k) \<in> set o2 \<Longrightarrow> entries v2 i = Some k"
    unfolding recorded_def by blast
  have "entries v2 i = Some k" if "Find i (Some k) \<in> set (o1 @ o2)" for i k
    using that a(3) [of i k] b(3) [of i k] map_le_Some [OF b(1)] by auto
  moreover have "calls v2 = calls v @ (o1 @ o2)" using a(2) b(2) by simp
  moreover have "entries v \<subseteq>\<^sub>m entries v2" using a(1) b(1) by (rule map_le_trans)
  ultimately show ?thesis unfolding recorded_def by blast
qed

lemma recorded_find: "recorded v (snd (find_visited i v))"
  unfolding recorded_def
  by (intro conjI exI [of _ "[Find i (entries v i)]"]) auto

lemma recorded_insert: "recorded v (insert_visited i h v)"
  unfolding recorded_def
  by (intro conjI exI [of _ "[Insert i h]"]) (auto simp: insert_visited_mono)

lemma build_recorded:
  "makeExecutor c (q :: 'v QueryContext) v = Inr (h, q', v') \<Longrightarrow> recorded v v'"
proof (induction c arbitrary: q v h q' v' rule: measure_induct_rule [where f = "size_option size"])
  case (less c)
  from makeExecutor_Inr_Some [OF less.prems] obtain n where c: "c = Some n" by blast
  have child: "recorded vx vy"
    if "size_option size d \<le> size n" "makeExecutor d qx vx = Inr (hx, qy, vy)"
    for d and qx :: "'v QueryContext" and vx hx qy vy
    using less.IH [of d qx vx hx qy vy] that c by simp
  note f = recorded_find [of v "id_node n"]
  from less.prems [unfolded c] show ?case
  proof (cases rule: makeExecutor_Some_cases)
    case hit
    with f show ?thesis by simp
  next
    case leaf
    from f recorded_insert show ?thesis unfolding leaf(4) by (rule recorded_trans)
  next
    case (single q0 d0 hdep q4 v4)
    have s0: "size_option size d0 \<le> size n" using size_child(1) [of d0 n] single(2) by simp
    from f child [OF s0 single(6)] recorded_insert [of v4 "id_node n" h]
    show ?thesis unfolding single(8) by (blast intro: recorded_trans)
  next
    case (select q0 d0 ht q1 v1 he q2 v2 hdep q4 v4)
    have s0: "size_option size d0 \<le> size n" using size_child(1) [of d0 n] select(2) by simp
    from f child [OF size_child(2) select(5)] child [OF size_child(3) select(6)]
      child [OF s0 select(7)] recorded_insert [of v4 "id_node n" h]
    show ?thesis unfolding select(9) by (blast intro: recorded_trans)
  next
    case (loop q0 d0 hb q1 v1 hdep q4 v4)
    have s0: "size_option size d0 \<le> size n" using size_child(1) [of d0 n] loop(2) by simp
    from f child [OF size_child(4) loop(6)] child [OF s0 loop(7)]
      recorded_insert [of v4 "id_node n" h]
    show ?thesis unfolding loop(9) by (blast intro: recorded_trans)
  next
    case (binary q0 d0 d1 hl q1 v1 hr q2 v2)
    have s0: "size_option size d0 \<le> size n" using size_child(1) [of d0 n] binary(2) by simp
    have s1: "size_option size d1 \<le> size n" using size_child(1) [of d1 n] binary(2) by simp
    from f child [OF s0 binary(4)] child [OF s1 binary(5)]
      recorded_insert [of v2 "id_node n" h]
    show ?thesis unfolding binary(7) by (blast intro: recorded_trans)
  qed
qed

lemma create_lookups:
  assumes inj: "inj_on id_node (set (reach (Some root)))"
    and run: "create (Some root) q = Inr (h, q')"
    and ops: "build_calls (Some root) q = Some ops"
    and f: "Find i (Some k) \<in> set ops"
  shows "length (objPool q) \<le> k \<and> k < length (objPool q') \<and> exec_id (objPool q' ! k) = i"
proof -
  let ?U = "set (reach (Some root))"
  from run obtain v' where
    mk: "makeExecutor (Some root) q \<lparr>entries = Map.empty, calls = []\<rparr> = Inr (h, q', v')"
    unfolding create_Inr by blast
  with ops have o: "ops = calls v'" by (simp add: build_calls_def)
  have "memo_inv ?U (objPool q) (entries \<lparr>entries = Map.empty, calls = []\<rparr>)"
    by (simp add: memo_inv_empty)
  from build_main [OF inj subset_refl this mk]
  have cp: "call_post ?U (objPool q) Map.empty (Some root) h (objPool q') (entries v')"
    by simp
  from build_recorded [OF mk] f o have "entries v' i = Some k"
    unfolding recorded_def by auto
  from memo_invD(1,2) [OF call_post_emptyD(3) [OF cp] this] call_post_emptyD(4) [OF cp this]
  show ?thesis by simp
qed

lemma dom_chain:
  fixes A0 :: "'a set"
  shows "A5 \<subseteq> insert i A0 \<Longrightarrow> A5 \<subseteq> A0 \<union> {i}"
    and "A1 \<subseteq> A0 \<union> T \<Longrightarrow> A5 \<subseteq> insert i A1 \<Longrightarrow> A5 \<subseteq> A0 \<union> ({i} \<union> T)"
    and "A1 \<subseteq> A0 \<union> T \<Longrightarrow> A2 \<subseteq> A1 \<union> E \<Longrightarrow> A5 \<subseteq> insert i A2 \<Longrightarrow>
         A5 \<subseteq> A0 \<union> ({i} \<union> (T \<union> E))"
    and "A1 \<subseteq> A0 \<union> T \<Longrightarrow> A2 \<subseteq> A1 \<union> E \<Longrightarrow> A4 \<subseteq> A2 \<union> D \<Longrightarrow> A5 \<subseteq> insert i A4 \<Longrightarrow>
         A5 \<subseteq> A0 \<union> ({i} \<union> (T \<union> (E \<union> D)))"
  by blast+

lemma build_dom:
  "makeExecutor c (q :: 'v QueryContext) v = Inr (h, q', v') \<Longrightarrow>
   dom (entries v') \<subseteq> dom (entries v) \<union> id_node ` set (reach c)"
proof (induction c arbitrary: q v h q' v' rule: measure_induct_rule [where f = "size_option size"])
  case (less c)
  from makeExecutor_Inr_Some [OF less.prems] obtain n where c: "c = Some n" by blast
  have child: "dom (entries vy) \<subseteq> dom (entries vx) \<union> id_node ` set (reach d)"
    if "size_option size d \<le> size n" "makeExecutor d qx vx = Inr (hx, qy, vy)"
    for d and qx :: "'v QueryContext" and vx hx qy vy
    using less.IH [of d qx vx hx qy vy] that c by simp
  have ins: "dom (entries (insert_visited (id_node n) h vx)) \<subseteq> insert (id_node n) (dom (entries vx))"
    for vx
    by (auto simp: entries_insert_visited split: if_splits)
  have fv: "dom (entries (snd (find_visited (id_node n) v))) = dom (entries v)" by simp
  from less.prems [unfolded c] show ?case
  proof (cases rule: makeExecutor_Some_cases)
    case hit
    then show ?thesis by simp
  next
    case leaf
    from ins [of "snd (find_visited (id_node n) v)"]
    have "dom (entries v') \<subseteq> dom (entries v) \<union> {id_node n}"
      unfolding leaf(4) fv by (rule dom_chain(1))
    also have "\<dots> = dom (entries v) \<union> id_node ` set (reach c)"
      unfolding c reach_leaf [OF leaf(2)] by simp
    finally show ?thesis .
  next
    case (single q0 d0 hdep q4 v4)
    have s0: "size_option size d0 \<le> size n" using size_child(1) [of d0 n] single(2) by simp
    from child [OF s0 single(6)] ins [of v4]
    have "dom (entries v') \<subseteq> dom (entries v) \<union> ({id_node n} \<union> id_node ` set (reach d0))"
      unfolding single(8) fv by (rule dom_chain(2))
    also have "\<dots> = dom (entries v) \<union> id_node ` set (reach c)"
      unfolding c reach_single [OF single(2,3,4)] by simp
    finally show ?thesis .
  next
    case (select q0 d0 ht q1 v1 he q2 v2 hdep q4 v4)
    have s0: "size_option size d0 \<le> size n" using size_child(1) [of d0 n] select(2) by simp
    from child [OF size_child(2) select(5)] child [OF size_child(3) select(6)]
      child [OF s0 select(7)] ins [of v4]
    have "dom (entries v') \<subseteq> dom (entries v) \<union>
        ({id_node n} \<union> (id_node ` set (reach (then_node n)) \<union>
           (id_node ` set (reach (otherwise n)) \<union> id_node ` set (reach d0))))"
      unfolding select(9) fv by (rule dom_chain(4))
    also have "\<dots> = dom (entries v) \<union> id_node ` set (reach c)"
      unfolding c reach_select [OF select(2,3)] by (simp add: image_Un)
    finally show ?thesis .
  next
    case (loop q0 d0 hb q1 v1 hdep q4 v4)
    have s0: "size_option size d0 \<le> size n" using size_child(1) [of d0 n] loop(2) by simp
    from child [OF size_child(4) loop(6)] child [OF s0 loop(7)] ins [of v4]
    have "dom (entries v') \<subseteq> dom (entries v) \<union>
        ({id_node n} \<union> (id_node ` set (reach (body n)) \<union> id_node ` set (reach d0)))"
      unfolding loop(9) fv by (rule dom_chain(3))
    also have "\<dots> = dom (entries v) \<union> id_node ` set (reach c)"
      unfolding c reach_loop [OF loop(2,3,4)] by (simp add: image_Un)
    finally show ?thesis .
  next
    case (binary q0 d0 d1 hl q1 v1 hr q2 v2)
    have s0: "size_option size d0 \<le> size n" using size_child(1) [of d0 n] binary(2) by simp
    have s1: "size_option size d1 \<le> size n" using size_child(1) [of d1 n] binary(2) by simp
    from child [OF s0 binary(4)] child [OF s1 binary(5)] ins [of v2]
    have "dom (entries v') \<subseteq> dom (entries v) \<union>
        ({id_node n} \<union> (id_node ` set (reach d0) \<union> id_node ` set (reach d1)))"
      unfolding binary(7) fv by (rule dom_chain(3))
    also have "\<dots> = dom (entries v) \<union> id_node ` set (reach c)"
      unfolding c reach_binary [OF binary(2)] by (simp add: image_Un)
    finally show ?thesis .
  qed
qed

lemma kid_fresh:
  assumes inj: "inj_on id_node (set (reach (Some n)))"
    and le: "length (dependencies n) \<le> 2"
    and k: "c \<in> set (kids n)"
    and run: "makeExecutor c (q :: 'v QueryContext) v = Inr (h, q', v')"
    and none: "entries v (id_node n) = None"
  shows "entries v' (id_node n) = None"
proof -
  from kids_size [OF k] have s: "size_option size c \<le> size n" .
  from fresh_id [OF inj self_in_reach reach_kids [OF le k] s]
  have "id_node n \<notin> id_node ` set (reach c)" .
  with build_dom [OF run] none show ?thesis by (auto simp: dom_def)
qed

lemma insert_fresh:
  "entries u k = None \<Longrightarrow> entries (insert_visited k h u) = (entries u)(k \<mapsto> h)"
  by (simp add: entries_insert_visited)

lemma recursive_call:
  assumes "makeExecutor c (qa :: 'v QueryContext) va = Inr (hb, qb, vb)"
  shows "\<exists>hb qb nc ops. makeExecutor c qa va = Inr (hb, qb, vb) \<and> c = Some nc \<and>
           calls vb = calls va @ Find (id_node nc) (entries va (id_node nc)) # ops"
  using calls_lookup_first [OF assms] assms by blast

subsection \<open>Evaluating the examples\<close>

lemmas ev = scan_def left_branch_def right_branch_def diamond_def empty_qctx_def fresh_visited_def
  built_def build_calls_def create_def find_visited_def insert_visited_def makeExecutor2_def
  Executor_init_def pool_add_def exist_def initVar_def dependsOn_def setThenBody_def
  setElseBody_def setLoopBody_def

lemmas ev2 = ev executor_of_def diamond_built_def three_deps_def unknown_node_def
  select_plan_def

section \<open>Properties of the lifecycle\<close>

text \<open>
  Claim C6. For every executor and any prior state of its counters, \<^verbatim>\<open>open\<close> returns
  the success status and leaves the row counter at 0, the exec-duration counter at 0
  and the wall-clock timer restarted at the current clock reading (so that no time has
  elapsed on it); every other member is unchanged. Calling \<^verbatim>\<open>open\<close> again, on the
  result of a first call or after the counters and the timer took any other values,
  gives the post-state a first call gives at that clock reading.
\<close>

theorem open_resets_counters:
  "fst (open_exec now e) = OK
   \<and> snd (open_exec now e) = e\<lparr>numRows := 0, execTime := 0, totalDuration := reset now\<rparr>
   \<and> numRows (snd (open_exec now e)) = 0
   \<and> execTime (snd (open_exec now e)) = 0
   \<and> elapsedInUSec now (totalDuration (snd (open_exec now e))) = 0
   \<and> open_exec now' (snd (open_exec now e)) = open_exec now' e
   \<and> open_exec now' (e\<lparr>numRows := r, execTime := t, totalDuration := d\<rparr>) = open_exec now' e"
  by (simp add: open_exec_def reset_def elapsedInUSec_def)

text \<open>
  Claim C5. For every executor and every Result, \<^verbatim>\<open>finish(result)\<close> returns the success
  status, sets the row counter to the size of the result, and leaves the execution
  context equal to the old one with the slot of the node's output variable bound to
  the result, whatever that slot held before; no other slot changes.
\<close>

theorem finish_stores_result:
  "finish sz e qctx result =
     (OK, e\<lparr>numRows := sz result\<rparr>,
      qctx\<lparr>ectx := (ectx qctx)(outputVar (node e) \<mapsto> Some result)\<rparr>)
   \<and> ectx (snd (snd (finish sz e qctx result))) (outputVar (node e)) = Some (Some result)
   \<and> numRows (fst (snd (finish sz e qctx result))) = sz result"
  by (simp add: finish_def setResult_def)

text \<open>
  Claim C4. For every executor, a \<^verbatim>\<open>close\<close> that follows \<^verbatim>\<open>finish(result)\<close> returns the
  success status and hands the profiling sink one more record, keyed by the identity
  of the executor's node, whose row count is the size of the result, whose exec
  duration is the executor's exec-duration counter and whose total duration is the
  time elapsed on the wall-clock timer.
\<close>

theorem close_after_finish_reports_size:
  "(case finish sz e qctx result of
      (s, e', q') \<Rightarrow>
        close_exec now e' q' =
          (OK, q'\<lparr>profilingData := profilingData qctx @
                 [(id_node (node e),
                   \<lparr>rows = sz result, exec_duration_in_us = execTime e,
                    total_duration_in_us = now - startTick (totalDuration e)\<rparr>)]\<rparr>))"
  by (simp add: finish_def close_exec_def addProfilingData_def elapsedInUSec_def)

text \<open>
  Claim C10. For every plain value, the \<^verbatim>\<open>finish(Value)\<close> overload is \<^verbatim>\<open>finish(Result)\<close>
  on the Result made of that value and the default iteration descriptor: it returns
  the success status, binds the slot of the node's output variable to that Result,
  and sets the row counter to that Result's size.
\<close>

theorem finish_Value_default_iter:
  "finish_Value sz e qctx v = finish sz e qctx \<lparr>res_value = v, res_iter = kDefault\<rparr>
   \<and> ectx (snd (snd (finish_Value sz e qctx v))) (outputVar (node e))
       = Some (Some \<lparr>res_value = v, res_iter = kDefault\<rparr>)
   \<and> numRows (fst (snd (finish_Value sz e qctx v))) = sz \<lparr>res_value = v, res_iter = kDefault\<rparr>
   \<and> fst (finish_Value sz e qctx v) = OK"
  by (simp add: finish_Value_def finish_def setResult_def ResultBuilder_finish_def)

text \<open>
  Claim C9. For every status, \<^verbatim>\<open>error\<close> returns a future that is already resolved,
  holds the status wrapped in an \<^verbatim>\<open>ExecutionError\<close> (an exception, never a plain
  status value) and is moved to the runner; \<^verbatim>\<open>start\<close> returns a future that is
  already resolved, holds the status itself and is moved to the runner. Nothing is
  chained to either future: neither invokes \<^verbatim>\<open>execute\<close> of any executor. The runner is
  the task runner of the request whenever the query context, its request context and
  the runner of the request are set, and the inline executor when one of them is
  null.
\<close>

theorem start_and_error_futures:
  "start qctx s =
     \<lparr>core = Ready (Value s), via_executor = Some (runner qctx), continuations = []\<rparr>
   \<and> error qctx s =
       \<lparr>core = Ready (Exception (ExecutionError s)), via_executor = Some (runner qctx),
        continuations = []\<rparr>
   \<and> core (error qctx s) \<noteq> Ready (Value s')
   \<and> core (error qctx s) \<noteq> Pending
   \<and> core (start qctx s) \<noteq> Pending
   \<and> (\<forall>x. Execute x \<notin> set (continuations (start qctx s)) \<and>
           Execute x \<notin> set (continuations (error qctx s)))
   \<and> (rctx q = Some rc \<and> rctx_runner rc = Some r \<longrightarrow>
         runner (Some q) = r \<and>
         via_executor (start (Some q) s) = Some r \<and>
         via_executor (error (Some q) s) = Some r)
   \<and> runner None = InlineExecutor
   \<and> (rctx q = None \<longrightarrow> runner (Some q) = InlineExecutor)
   \<and> (rctx q = Some rc \<and> rctx_runner rc = None \<longrightarrow> runner (Some q) = InlineExecutor)"
  by (simp add: start_def error_def via_def makeFuture_def makeFuture_exception_def runner_def)

theorem start_and_error_futures_witness:
  "rctx request_qctx = Some \<lparr>rctx_runner = Some (TaskRunner 7)\<rparr> \<and>
   rctx_runner \<lparr>rctx_runner = Some (TaskRunner 7)\<rparr> = Some (TaskRunner 7) \<and>
   runner (Some request_qctx) = TaskRunner 7 \<and>
   start (Some request_qctx) (Failure ''e'') =
     \<lparr>core = Ready (Value (Failure ''e'')), via_executor = Some (TaskRunner 7),
      continuations = []\<rparr> \<and>
   error (Some request_qctx) (Failure ''e'') =
     \<lparr>core = Ready (Exception (ExecutionError (Failure ''e''))),
      via_executor = Some (TaskRunner 7), continuations = []\<rparr> \<and>
   rctx empty_qctx = None \<and>
   runner (Some empty_qctx) = InlineExecutor \<and>
   via_executor (start (Some empty_qctx) OK) = Some InlineExecutor"
proof -
  have a: "rctx request_qctx = Some \<lparr>rctx_runner = Some (TaskRunner 7)\<rparr>"
    "rctx_runner \<lparr>rctx_runner = Some (TaskRunner 7)\<rparr> = Some (TaskRunner 7)"
    "rctx empty_qctx = None"
    by (simp_all add: request_qctx_def empty_qctx_def)
  note t1 = start_and_error_futures
      [where qctx = "Some request_qctx" and s = "Failure ''e''" and s' = OK
         and q = request_qctx and rc = "\<lparr>rctx_runner = Some (TaskRunner 7)\<rparr>"
         and r = "TaskRunner 7"]
  note t2 = start_and_error_futures
      [where qctx = "Some empty_qctx" and s = OK and s' = OK and q = empty_qctx
         and rc = "\<lparr>rctx_runner = None\<rparr>" and r = InlineExecutor]
  from t1 a(1,2) have r1: "runner (Some request_qctx) = TaskRunner 7" by blast
  from t2 a(3) have r2: "runner (Some empty_qctx) = InlineExecutor" by blast
  from t1 have s1: "start (Some request_qctx) (Failure ''e'') =
     \<lparr>core = Ready (Value (Failure ''e'')), via_executor = Some (TaskRunner 7),
      continuations = []\<rparr>"
    unfolding r1 by (rule conjunct1)
  from t1 have e1: "error (Some request_qctx) (Failure ''e'') =
     \<lparr>core = Ready (Exception (ExecutionError (Failure ''e''))),
      via_executor = Some (TaskRunner 7), continuations = []\<rparr>"
    unfolding r1 by blast
  from t2 have "start (Some empty_qctx) OK =
     \<lparr>core = Ready (Value OK), via_executor = Some InlineExecutor, continuations = []\<rparr>"
    unfolding r2 by (rule conjunct1)
  then have s2: "via_executor (start (Some empty_qctx) OK) = Some InlineExecutor" by simp
  from a r1 r2 s1 e1 s2 show ?thesis by blast
qed

section \<open>Properties of the builder\<close>

text \<open>
  Claim C1. Let the nodes reached from the root have pairwise distinct identities (a
  plan DAG, unfolded), and let \<^verbatim>\<open>create\<close> return. Then the executors the call added to
  the pool correspond one to one to the identities of the reached nodes: every
  reached node, however many parents it has, has exactly one executor. Every new
  executor is wired: each handle it holds refers to the executor of the corresponding
  child of its node, so that two handles held by any two parents for the same node are
  the same handle. Every lookup of the map that hit returned the executor of the
  identity looked up. The executors that were in the pool before are unchanged, and the
  returned handle is the executor of the root.
\<close>

theorem create_one_executor_per_node:
  assumes inj: "inj_on id_node (set (reach (Some root)))"
    and run: "create (Some root) q = Inr (h, q')"
  shows "bij_betw (\<lambda>k. exec_id (objPool q' ! k)) {length (objPool q)..<length (objPool q')}
           (id_node ` set (reach (Some root))) \<and>
         (\<forall>n\<in>set (reach (Some root)).
            \<exists>!k. length (objPool q) \<le> k \<and> k < length (objPool q') \<and> node (objPool q' ! k) = n) \<and>
         (\<forall>k. length (objPool q) \<le> k \<and> k < length (objPool q') \<longrightarrow>
            node (objPool q' ! k) \<in> set (reach (Some root)) \<and>
            exec_id (objPool q' ! k) = id_node (node (objPool q' ! k)) \<and>
            wired (length (objPool q)) (objPool q') (objPool q' ! k)) \<and>
         (\<forall>k1 k2 h1 h2.
            length (objPool q) \<le> k1 \<and> k1 < length (objPool q') \<and>
            length (objPool q) \<le> k2 \<and> k2 < length (objPool q') \<and>
            edge (objPool q' ! k1) h1 \<and> edge (objPool q' ! k2) h2 \<and>
            node (objPool q' ! h1) = node (objPool q' ! h2) \<longrightarrow> h1 = h2) \<and>
         (\<forall>ops i k. build_calls (Some root) q = Some ops \<and> Find i (Some k) \<in> set ops \<longrightarrow>
            length (objPool q) \<le> k \<and> k < length (objPool q') \<and> exec_id (objPool q' ! k) = i) \<and>
         take (length (objPool q)) (objPool q') = objPool q \<and>
         length (objPool q) \<le> h \<and> h < length (objPool q') \<and> node (objPool q' ! h) = root"
proof -
  let ?b = "length (objPool q)" and ?P = "objPool q'"
  note g = create_graph [OF inj run]
  have new: "node (?P ! k) \<in> set (reach (Some root)) \<and>
      exec_id (?P ! k) = id_node (node (?P ! k)) \<and> wired ?b ?P (?P ! k)"
    if "?b \<le> k" "k < length ?P" for k
    using g(4) [OF that] by blast
  have uniq: "k1 = k2"
    if "?b \<le> k1" "k1 < length ?P" "?b \<le> k2" "k2 < length ?P" "node (?P ! k1) = node (?P ! k2)"
    for k1 k2
  proof -
    from new [OF that(1,2)] new [OF that(3,4)] that(5)
    have "exec_id (?P ! k1) = exec_id (?P ! k2)" by simp
    moreover from g(3) have "inj_on (\<lambda>k. exec_id (?P ! k)) {?b..<length ?P}"
      unfolding bij_betw_def by blast
    ultimately show ?thesis using that(1-4) by (auto dest: inj_onD)
  qed
  have ex1: "\<exists>!k. ?b \<le> k \<and> k < length ?P \<and> node (?P ! k) = n"
    if "n \<in> set (reach (Some root))" for n
  proof -
    from create_reached_known [OF inj run that] obtain k where
      "?b \<le> k" "k < length ?P" "node (?P ! k) = n" by blast
    with uniq show ?thesis by blast
  qed
  have share: "h1 = h2"
    if "?b \<le> k1" "k1 < length ?P" "?b \<le> k2" "k2 < length ?P"
      "edge (?P ! k1) h1" "edge (?P ! k2) h2" "node (?P ! h1) = node (?P ! h2)"
    for k1 k2 h1 h2
  proof -
    from new [OF that(1,2)] that(5) have "?b \<le> h1 \<and> h1 < length ?P"
      by (blast dest: wired_edge)
    moreover from new [OF that(3,4)] that(6) have "?b \<le> h2 \<and> h2 < length ?P"
      by (blast dest: wired_edge)
    ultimately show ?thesis using uniq that(7) by blast
  qed
  have look: "?b \<le> k \<and> k < length ?P \<and> exec_id (?P ! k) = i"
    if "build_calls (Some root) q = Some ops" "Find i (Some k) \<in> set ops" for ops i k
    by (rule create_lookups [OF inj run that])
  from g(3) ex1 new share look g(1) g(5) show ?thesis by blast
qed

theorem create_one_executor_per_node_witness:
  "inj_on id_node (set (reach (Some diamond))) \<and>
   create (Some diamond) empty_qctx = Inr (0, diamond_built) \<and>
   bij_betw (\<lambda>k. exec_id (objPool diamond_built ! k)) {0..<4}
     (id_node ` set (reach (Some diamond))) \<and>
   edge (objPool diamond_built ! 1) 2 \<and> edge (objPool diamond_built ! 3) 2 \<and>
   node (objPool diamond_built ! 2) = scan \<and>
   build_calls (Some diamond) empty_qctx =
     Some [Find 4 None, Find 2 None, Find 1 None, Insert 1 2, Insert 2 1,
           Find 3 None, Find 1 (Some 2), Insert 3 3, Insert 4 0]"
proof -
  have a: "inj_on id_node (set (reach (Some diamond)))"
    unfolding inj_on_set_remdups by (simp add: ev2)
  have b: "create (Some diamond) empty_qctx = Inr (0, diamond_built)"
    by (simp add: ev2)
  have c: "length (objPool empty_qctx) = 0" "length (objPool diamond_built) = 4"
    by (simp_all add: ev2)
  from create_one_executor_per_node [OF a b]
  have "bij_betw (\<lambda>k. exec_id (objPool diamond_built ! k)) {0..<4}
     (id_node ` set (reach (Some diamond)))"
    unfolding c by (rule conjunct1)
  moreover have "edge (objPool diamond_built ! 1) 2" "edge (objPool diamond_built ! 3) 2"
    "node (objPool diamond_built ! 2) = scan"
    "build_calls (Some diamond) empty_qctx =
     Some [Find 4 None, Find 2 None, Find 1 None, Insert 1 2, Insert 2 1,
           Find 3 None, Find 1 (Some 2), Insert 3 3, Insert 4 0]"
    by (simp_all add: ev2 edge_def)
  ultimately show ?thesis using a b by simp
qed

text \<open>
  Claim C2, as stated, fails: the builder inserts the executor of a node into the map
  after the recursive calls. In the build of the filter over the scan, the entry of
  the filter (identity 2, handle 0) is inserted last, after the lookup and the
  insertion made by the recursive call for the scan (identity 1).
\<close>

theorem insert_before_recursion_counterexample:
  "build_calls (Some left_branch) empty_qctx =
     Some [Find 2 None, Find 1 None, Insert 1 1, Insert 2 0]"
  by (simp add: ev2)

text \<open>
  Claim C2, amended. For every node that is not yet in the map and whose build
  returns, the executor is constructed first, and the calls the build makes on the map
  are, in this order: the lookup of the node, which misses; then, for each control
  child and dependency in turn, the calls of its recursive build, which begin with the
  lookup of that child and start from the map the previous one left; and last the
  insertion of the node's executor, into the map the last recursive build left. In a
  plan with distinct identities the node has no entry in any of these maps, so that it
  is this last insertion that enters it.
\<close>

theorem insert_follows_recursive_calls:
  assumes run: "makeExecutor (Some n) (q :: 'v QueryContext) v = Inr (h, q', v')"
    and miss: "entries v (id_node n) = None"
  shows "\<exists>q0 qs vs.
     makeExecutor2 q n = Inr (h, q0) \<and>
     length qs = length (kids n) \<and> length vs = Suc (length (kids n)) \<and>
     (kids n \<noteq> [] \<longrightarrow> qs ! 0 = q0) \<and>
     vs ! 0 = snd (find_visited (id_node n) v) \<and>
     calls (vs ! 0) = calls v @ [Find (id_node n) None] \<and>
     (\<forall>j<length (kids n). \<exists>hb qb nc ops.
         makeExecutor (kids n ! j) (qs ! j) (vs ! j) = Inr (hb, qb, vs ! Suc j) \<and>
         kids n ! j = Some nc \<and>
         calls (vs ! Suc j) =
           calls (vs ! j) @ Find (id_node nc) (entries (vs ! j) (id_node nc)) # ops) \<and>
     v' = insert_visited (id_node n) h (last vs) \<and>
     calls v' = calls (last vs) @ [Insert (id_node n) h] \<and>
     (inj_on id_node (set (reach (Some n))) \<longrightarrow>
        (\<forall>u\<in>set vs. entries u (id_node n) = None) \<and>
        entries v' = (entries (last vs))(id_node n \<mapsto> h))"
proof -
  define v0 where "v0 = snd (find_visited (id_node n) v)"
  have v0: "calls v0 = calls v @ [Find (id_node n) None]" "entries v0 (id_node n) = None"
    using miss by (simp_all add: v0_def)
  note fresh = kid_fresh [where n = n]
  from run show ?thesis
  proof (cases rule: makeExecutor_Some_cases)
    case hit
    with miss show ?thesis by simp
  next
    case leaf
    note k = kids_shapes(1) [OF leaf(2)]
    from leaf v0
    show ?thesis
      unfolding k
      by (intro exI [of _ q'] exI [of _ "[]"] exI [of _ "[v0]"])
        (simp add: v0_def [symmetric] insert_fresh)
  next
    case (single q0 d0 hdep q4 v4)
    note k = kids_shapes(2) [OF single(2,3,4)]
    note r = single(6) [folded v0_def]
    have le: "length (dependencies n) \<le> 2" using single(2) by simp
    have f: "entries v4 (id_node n) = None" if "inj_on id_node (set (reach (Some n)))"
      by (rule fresh [OF that le _ r v0(2)]) (simp add: k)
    from single(5,8) v0 recursive_call [OF r] f
    show ?thesis
      unfolding k
      by (intro exI [of _ q0] exI [of _ "[q0]"] exI [of _ "[v0, v4]"])
        (simp add: v0_def [symmetric] insert_fresh)
  next
    case (select q0 d0 ht q1 v1 he q2 v2 hdep q4 v4)
    note k = kids_shapes(3) [OF select(2,3)]
    note r1 = select(5) [folded v0_def]
    have le: "length (dependencies n) \<le> 2" using select(2) by simp
    have f1: "entries v1 (id_node n) = None" if "inj_on id_node (set (reach (Some n)))"
      by (rule fresh [OF that le _ r1 v0(2)]) (simp add: k)
    have f2: "entries v2 (id_node n) = None" if "inj_on id_node (set (reach (Some n)))"
      by (rule fresh [OF that le _ select(6) f1 [OF that]]) (simp add: k)
    have f4: "entries v4 (id_node n) = None" if "inj_on id_node (set (reach (Some n)))"
      by (rule fresh [OF that le _ select(7) f2 [OF that]]) (simp add: k)
    from select(4,9) v0 recursive_call [OF r1] recursive_call [OF select(6)] recursive_call [OF select(7)] f1 f2 f4
    show ?thesis
      unfolding k
      by (intro exI [of _ q0] exI [of _ "[q0, q1, setElseBody h he (setThenBody h ht q2)]"] exI [of _ "[v0, v1, v2, v4]"])
        (simp add: v0_def [symmetric] insert_fresh All_less_Suc)
  next
    case (loop q0 d0 hb q1 v1 hdep q4 v4)
    note k = kids_shapes(4) [OF loop(2,3,4)]
    note r1 = loop(6) [folded v0_def]
    have le: "length (dependencies n) \<le> 2" using loop(2) by simp
    have f1: "entries v1 (id_node n) = None" if "inj_on id_node (set (reach (Some n)))"
      by (rule fresh [OF that le _ r1 v0(2)]) (simp add: k)
    have f4: "entries v4 (id_node n) = None" if "inj_on id_node (set (reach (Some n)))"
      by (rule fresh [OF that le _ loop(7) f1 [OF that]]) (simp add: k)
    from loop(5,9) v0 recursive_call [OF r1] recursive_call [OF loop(7)] f1 f4
    show ?thesis
      unfolding k
      by (intro exI [of _ q0] exI [of _ "[q0, setLoopBody h hb q1]"] exI [of _ "[v0, v1, v4]"])
        (simp add: v0_def [symmetric] insert_fresh All_less_Suc)
  next
    case (binary q0 d0 d1 hl q1 v1 hr q2 v2)
    note k = kids_shapes(5) [OF binary(2)]
    note r1 = binary(4) [folded v0_def]
    have le: "length (dependencies n) \<le> 2" using binary(2) by simp
    have f1: "entries v1 (id_node n) = None" if "inj_on id_node (set (reach (Some n)))"
      by (rule fresh [OF that le _ r1 v0(2)]) (simp add: k)
    have f2: "entries v2 (id_node n) = None" if "inj_on id_node (set (reach (Some n)))"
      by (rule fresh [OF that le _ binary(5) f1 [OF that]]) (simp add: k)
    from binary(3,7) v0 recursive_call [OF r1] recursive_call [OF binary(5)] f1 f2
    show ?thesis
      unfolding k
      by (intro exI [of _ q0] exI [of _ "[q0, q1]"] exI [of _ "[v0, v1, v2]"])
        (simp add: v0_def [symmetric] insert_fresh All_less_Suc)
  qed
qed

theorem insert_follows_recursive_calls_witness:
  "entries fresh_visited (id_node left_branch) = None \<and>
   makeExecutor (Some left_branch) empty_qctx fresh_visited = Inr (0, left_built, left_visited) \<and>
   inj_on id_node (set (reach (Some left_branch))) \<and>
   kids left_branch = [Some scan] \<and>
   (\<exists>q0 vs.
      makeExecutor2 empty_qctx left_branch = Inr (0, q0) \<and>
      calls (vs ! 0) = [Find 2 None] \<and>
      (\<exists>hb qb. makeExecutor (Some scan) q0 (vs ! 0) = Inr (hb, qb, vs ! 1)) \<and>
      calls (vs ! 1) = [Find 2 None, Find 1 None, Insert 1 1] \<and>
      entries (vs ! 1) 2 = None \<and>
      left_visited = insert_visited 2 0 (vs ! 1))"
proof -
  have a: "entries fresh_visited (id_node left_branch) = None" by (simp add: ev2)
  have b: "makeExecutor (Some left_branch) empty_qctx fresh_visited = Inr (0, left_built, left_visited)"
    by (simp add: ev2 left_built_def left_visited_def)
  have c: "kids left_branch = [Some scan]" by (simp add: ev2 kids_def)
  have d: "inj_on id_node (set (reach (Some left_branch)))"
    unfolding inj_on_set_remdups by (simp add: ev2)
  have e: "id_node left_branch = 2" "calls fresh_visited = []"
    "calls left_visited = [Find 2 None, Find 1 None, Insert 1 1, Insert 2 0]"
    by (simp_all add: ev2 left_visited_def)
  from insert_follows_recursive_calls [OF b a] obtain q0 qs vs where
    w: "makeExecutor2 empty_qctx left_branch = Inr (0, q0)"
      "length vs = Suc (length (kids left_branch))"
      "kids left_branch \<noteq> [] \<longrightarrow> qs ! 0 = q0"
      "calls (vs ! 0) = calls fresh_visited @ [Find (id_node left_branch) None]"
      "\<forall>j<length (kids left_branch). \<exists>hb qb nc ops.
         makeExecutor (kids left_branch ! j) (qs ! j) (vs ! j) = Inr (hb, qb, vs ! Suc j) \<and>
         kids left_branch ! j = Some nc \<and>
         calls (vs ! Suc j) =
           calls (vs ! j) @ Find (id_node nc) (entries (vs ! j) (id_node nc)) # ops"
      "left_visited = insert_visited (id_node left_branch) 0 (last vs)"
      "calls left_visited = calls (last vs) @ [Insert (id_node left_branch) 0]"
      "inj_on id_node (set (reach (Some left_branch))) \<longrightarrow>
        (\<forall>u\<in>set vs. entries u (id_node left_branch) = None) \<and>
        entries left_visited = (entries (last vs))(id_node left_branch \<mapsto> 0)"
    by blast
  from w(2) have l: "last vs = vs ! 1" unfolding c by (cases vs) (auto simp: last_conv_nth)
  from w(2) have m: "vs ! 1 \<in> set vs" unfolding c by simp
  from w(3) have q: "qs ! 0 = q0" unfolding c by simp
  from w(4) have c0: "calls (vs ! 0) = [Find 2 None]" unfolding e by simp
  from w(5) have r: "\<exists>hb qb. makeExecutor (Some scan) q0 (vs ! 0) = Inr (hb, qb, vs ! 1)"
    unfolding c q [symmetric] by auto
  from w(7) have c1: "calls (vs ! 1) = [Find 2 None, Find 1 None, Insert 1 1]"
    unfolding l e by simp
  from w(8) d m have f: "entries (vs ! 1) 2 = None" unfolding e by blast
  from w(6) have i: "left_visited = insert_visited 2 0 (vs ! 1)" unfolding l e .
  from w(1) c0 r c1 f i have
    "\<exists>q0 vs.
      makeExecutor2 empty_qctx left_branch = Inr (0, q0) \<and>
      calls (vs ! 0) = [Find 2 None] \<and>
      (\<exists>hb qb. makeExecutor (Some scan) q0 (vs ! 0) = Inr (hb, qb, vs ! 1)) \<and>
      calls (vs ! 1) = [Find 2 None, Find 1 None, Insert 1 1] \<and>
      entries (vs ! 1) 2 = None \<and>
      left_visited = insert_visited 2 0 (vs ! 1)"
    by blast
  with a b c d show ?thesis by blast
qed

text \<open>
  Claim C3. The dispatch has an entry for every kind but \<^verbatim>\<open>kUnknown\<close>. A node that is
  not yet in the map aborts the build with the fatal error of the unknown kind when
  its kind has no entry, and with the fatal error of the dependency count when its
  kind has an entry and the length of its dependency list is not 0, 1 or 2; no
  executor is returned. Every abort of a build is one the traversal can meet; when
  every reached node has a kind with an entry and 0, 1 or 2 dependencies, neither
  fatal error occurs, and when moreover no reached pointer is null the build returns.
  In a plan with distinct identities, a reached node without entry or with another
  dependency count makes \<^verbatim>\<open>create\<close> abort.
\<close>

theorem fatal_abort_conditions:
  "(executorClass k = None \<longleftrightarrow> k = kUnknown) \<and>
   (entries v (id_node n) = None \<and> executorClass (kind n) = None \<longrightarrow>
      makeExecutor (Some n) q v = Inl (FatalUnknownKind (kind n)) \<and>
      create (Some n) q = Inl (FatalUnknownKind (kind n))) \<and>
   (entries v (id_node n) = None \<and> executorClass (kind n) \<noteq> None \<and>
    length (dependencies n) \<notin> {0, 1, 2} \<longrightarrow>
      makeExecutor (Some n) q v = Inl (FatalDependencies (length (dependencies n))) \<and>
      create (Some n) q = Inl (FatalDependencies (length (dependencies n)))) \<and>
   (makeExecutor c q v = Inl a \<longrightarrow> a \<in> aborts c) \<and>
   ((\<forall>x\<in>set (reach c). executorClass (kind x) \<noteq> None \<and> length (dependencies x) \<in> {0, 1, 2}) \<longrightarrow>
      (\<forall>k'. makeExecutor c q v \<noteq> Inl (FatalUnknownKind k')) \<and>
      (\<forall>j. makeExecutor c q v \<noteq> Inl (FatalDependencies j))) \<and>
   (aborts c = {} \<longrightarrow> (\<exists>h q' v'. makeExecutor c q v = Inr (h, q', v'))) \<and>
   (inj_on id_node (set (reach (Some root))) \<and>
    (\<exists>x\<in>set (reach (Some root)).
       executorClass (kind x) = None \<or> length (dependencies x) \<notin> {0, 1, 2}) \<longrightarrow>
      (\<exists>a'. create (Some root) q = Inl a'))"
proof -
  have ar: "length xs \<notin> {0, 1, 2} \<longleftrightarrow> 2 < length xs" for xs :: "PlanNode option list"
  proof -
    have "j \<notin> {0, 1, 2} \<longleftrightarrow> 2 < j" for j :: nat by auto
    then show ?thesis .
  qed
  have 1: "executorClass k = None \<longleftrightarrow> k = kUnknown" by (rule executorClass_None)
  have 2: "makeExecutor (Some n) q v = Inl (FatalUnknownKind (kind n)) \<and>
      create (Some n) q = Inl (FatalUnknownKind (kind n))"
    if "entries v (id_node n) = None" "executorClass (kind n) = None"
    using fatal_kind [OF that] fatal_kind [of "\<lparr>entries = Map.empty, calls = []\<rparr>" n q] that(2)
    by (simp add: create_Inl)
  have 3: "makeExecutor (Some n) q v = Inl (FatalDependencies (length (dependencies n))) \<and>
      create (Some n) q = Inl (FatalDependencies (length (dependencies n)))"
    if "entries v (id_node n) = None" "executorClass (kind n) \<noteq> None"
      "length (dependencies n) \<notin> {0, 1, 2}"
    using fatal_arity [OF that(1,2)] fatal_arity [of "\<lparr>entries = Map.empty, calls = []\<rparr>" n q]
      that(2,3) unfolding ar
    by (simp add: create_Inl)
  have 4: "a \<in> aborts c" if "makeExecutor c q v = Inl a"
    by (rule abort_sound [OF that])
  have 5: "(\<forall>k'. makeExecutor c q v \<noteq> Inl (FatalUnknownKind k')) \<and>
      (\<forall>j. makeExecutor c q v \<noteq> Inl (FatalDependencies j))"
    if ok: "\<forall>x\<in>set (reach c). executorClass (kind x) \<noteq> None \<and> length (dependencies x) \<in> {0, 1, 2}"
  proof (intro conjI allI notI)
    fix k' assume "makeExecutor c q v = Inl (FatalUnknownKind k')"
    from aborts_reach [OF abort_sound [OF this]] ok show False by auto
  next
    fix j assume "makeExecutor c q v = Inl (FatalDependencies j)"
    from aborts_reach [OF abort_sound [OF this]] ok show False by auto
  qed
  have 6: "\<exists>h q' v'. makeExecutor c q v = Inr (h, q', v')" if "aborts c = {}"
    by (rule build_total [OF that])
  have 7: "\<exists>a'. create (Some root) q = Inl a'"
    if inj: "inj_on id_node (set (reach (Some root)))"
      and bad: "\<exists>x\<in>set (reach (Some root)).
       executorClass (kind x) = None \<or> length (dependencies x) \<notin> {0, 1, 2}"
  proof (cases "create (Some root) q")
    case (Inl a')
    then show ?thesis by blast
  next
    case (Inr r)
    obtain h q' where r: "r = (h, q')" by (cases r)
    from bad obtain x where x: "x \<in> set (reach (Some root))"
      "executorClass (kind x) = None \<or> 2 < length (dependencies x)"
      unfolding ar by blast
    from create_reached_known [OF inj Inr [unfolded r] x(1)] obtain k where
      "executorClass (kind x) = Some (exec_class (objPool q' ! k))"
      "wired (length (objPool q)) (objPool q') (objPool q' ! k)" "node (objPool q' ! k) = x"
      by blast
    with x(2) show ?thesis by (auto simp: wired_def)
  qed
  from 1 2 3 4 5 6 7 show ?thesis by blast
qed

theorem fatal_abort_conditions_witness:
  "entries fresh_visited (id_node three_deps) = None \<and>
   executorClass (kind three_deps) \<noteq> None \<and> length (dependencies three_deps) \<notin> {0, 1, 2} \<and>
   makeExecutor (Some three_deps) empty_qctx fresh_visited = Inl (FatalDependencies 3) \<and>
   entries fresh_visited (id_node unknown_node) = None \<and>
   executorClass (kind unknown_node) = None \<and>
   makeExecutor (Some unknown_node) empty_qctx fresh_visited = Inl (FatalUnknownKind kUnknown) \<and>
   aborts (Some diamond) = {} \<and>
   (\<exists>h q' v'. makeExecutor (Some diamond) empty_qctx fresh_visited = Inr (h, q', v'))"
proof -
  have a: "entries fresh_visited (id_node three_deps) = None"
    "executorClass (kind three_deps) \<noteq> None" "length (dependencies three_deps) \<notin> {0, 1, 2}"
    "length (dependencies three_deps) = 3"
    by (simp_all add: ev2)
  have b: "entries fresh_visited (id_node unknown_node) = None"
    "executorClass (kind unknown_node) = None" "kind unknown_node = kUnknown"
    by (simp_all add: ev2)
  have c: "aborts (Some diamond) = {}" by (simp add: ev2)
  from fatal_abort_conditions [of kUnknown fresh_visited three_deps empty_qctx "Some diamond"]
    fatal_abort_conditions [of kUnknown fresh_visited unknown_node empty_qctx "Some diamond"]
    a b c
  show ?thesis by simp
qed

text \<open>
  Claim C7. A branch node and a loop node have one ordinary predecessor, and the
  builder handles both kinds under the case of one dependency. Let the nodes reached
  from the root have pairwise distinct identities and let \<^verbatim>\<open>create\<close> return, which it
  does whenever the traversal meets no abort. Then for every reached Select node with
  its one dependency, the build has constructed a \<^verbatim>\<open>SelectExecutor\<close> whose then-body
  and else-body are handles of new executors, those of the node's then-child and
  otherwise-child, and every node of both sub-graphs has its executor; for every
  reached Loop node with its one dependency the same holds of the \<^verbatim>\<open>LoopExecutor\<close> and
  its body. This holds for every state of the query context, whatever its execution
  context holds: no value computed at run time enters the build.
\<close>

theorem control_bodies_attached:
  "(aborts (Some root) = {} \<longrightarrow> (\<exists>h q'. create (Some root) q = Inr (h, q'))) \<and>
   (inj_on id_node (set (reach (Some root))) \<and> create (Some root) q = Inr (h, q') \<and>
    s \<in> set (reach (Some root)) \<and> length (dependencies s) = 1 \<longrightarrow>
      (kind s = kSelect \<longrightarrow>
         (\<exists>k ht he.
            length (objPool q) \<le> k \<and> k < length (objPool q') \<and> node (objPool q' ! k) = s \<and>
            exec_class (objPool q' ! k) = SelectExecutor \<and>
            thenBody (objPool q' ! k) = Some ht \<and>
            length (objPool q) \<le> ht \<and> ht < length (objPool q') \<and>
            then_node s = Some (node (objPool q' ! ht)) \<and>
            elseBody (objPool q' ! k) = Some he \<and>
            length (objPool q) \<le> he \<and> he < length (objPool q') \<and>
            otherwise s = Some (node (objPool q' ! he))) \<and>
         (\<forall>x\<in>set (reach (then_node s)) \<union> set (reach (otherwise s)).
            \<exists>k. length (objPool q) \<le> k \<and> k < length (objPool q') \<and> node (objPool q' ! k) = x)) \<and>
      (kind s = kLoop \<longrightarrow>
         (\<exists>k hb.
            length (objPool q) \<le> k \<and> k < length (objPool q') \<and> node (objPool q' ! k) = s \<and>
            exec_class (objPool q' ! k) = LoopExecutor \<and>
            loopBody (objPool q' ! k) = Some hb \<and>
            length (objPool q) \<le> hb \<and> hb < length (objPool q') \<and>
            body s = Some (node (objPool q' ! hb))) \<and>
         (\<forall>x\<in>set (reach (body s)).
            \<exists>k. length (objPool q) \<le> k \<and> k < length (objPool q') \<and> node (objPool q' ! k) = x)))"
proof -
  let ?b = "length (objPool q)" and ?P = "objPool q'"
  have tot: "\<exists>h q'. create (Some root) q = Inr (h, q')" if "aborts (Some root) = {}"
    using build_total [OF that, of q "\<lparr>entries = Map.empty, calls = []\<rparr>"]
    unfolding create_Inr by blast
  have main: "(kind s = kSelect \<longrightarrow>
         (\<exists>k ht he.
            ?b \<le> k \<and> k < length ?P \<and> node (?P ! k) = s \<and>
            exec_class (?P ! k) = SelectExecutor \<and>
            thenBody (?P ! k) = Some ht \<and> ?b \<le> ht \<and> ht < length ?P \<and>
            then_node s = Some (node (?P ! ht)) \<and>
            elseBody (?P ! k) = Some he \<and> ?b \<le> he \<and> he < length ?P \<and>
            otherwise s = Some (node (?P ! he))) \<and>
         (\<forall>x\<in>set (reach (then_node s)) \<union> set (reach (otherwise s)).
            \<exists>k. ?b \<le> k \<and> k < length ?P \<and> node (?P ! k) = x)) \<and>
      (kind s = kLoop \<longrightarrow>
         (\<exists>k hb.
            ?b \<le> k \<and> k < length ?P \<and> node (?P ! k) = s \<and>
            exec_class (?P ! k) = LoopExecutor \<and>
            loopBody (?P ! k) = Some hb \<and> ?b \<le> hb \<and> hb < length ?P \<and>
            body s = Some (node (?P ! hb))) \<and>
         (\<forall>x\<in>set (reach (body s)).
            \<exists>k. ?b \<le> k \<and> k < length ?P \<and> node (?P ! k) = x))"
    if inj: "inj_on id_node (set (reach (Some root)))"
      and run: "create (Some root) q = Inr (h, q')"
      and s: "s \<in> set (reach (Some root))" and one: "length (dependencies s) = 1"
  proof -
    from create_reached_known [OF inj run s] obtain k where
      k: "?b \<le> k" "k < length ?P" "node (?P ! k) = s"
      and cl: "executorClass (kind s) = Some (exec_class (?P ! k))"
      and w: "wired ?b ?P (?P ! k)" by blast
    have le2: "length (dependencies s) \<le> 2" using one by simp
    note cl_sub = reach_closed [OF s]
    have every: "\<exists>k. ?b \<le> k \<and> k < length ?P \<and> node (?P ! k) = x"
      if "x \<in> set (reach (Some root))" for x
      using create_reached_known [OF inj run that] by blast
    have sel: "(\<exists>k ht he.
            ?b \<le> k \<and> k < length ?P \<and> node (?P ! k) = s \<and>
            exec_class (?P ! k) = SelectExecutor \<and>
            thenBody (?P ! k) = Some ht \<and> ?b \<le> ht \<and> ht < length ?P \<and>
            then_node s = Some (node (?P ! ht)) \<and>
            elseBody (?P ! k) = Some he \<and> ?b \<le> he \<and> he < length ?P \<and>
            otherwise s = Some (node (?P ! he))) \<and>
         (\<forall>x\<in>set (reach (then_node s)) \<union> set (reach (otherwise s)).
            \<exists>k. ?b \<le> k \<and> k < length ?P \<and> node (?P ! k) = x)"
      if ks: "kind s = kSelect"
    proof
      from w k(3) one ks obtain ht he where
        "thenBody (?P ! k) = Some ht" "?b \<le> ht" "ht < length ?P"
        "then_node s = Some (node (?P ! ht))"
        "elseBody (?P ! k) = Some he" "?b \<le> he" "he < length ?P"
        "otherwise s = Some (node (?P ! he))"
        unfolding wired_def by auto
      moreover from cl ks have "exec_class (?P ! k) = SelectExecutor" by simp
      ultimately show "\<exists>k ht he.
            ?b \<le> k \<and> k < length ?P \<and> node (?P ! k) = s \<and>
            exec_class (?P ! k) = SelectExecutor \<and>
            thenBody (?P ! k) = Some ht \<and> ?b \<le> ht \<and> ht < length ?P \<and>
            then_node s = Some (node (?P ! ht)) \<and>
            elseBody (?P ! k) = Some he \<and> ?b \<le> he \<and> he < length ?P \<and>
            otherwise s = Some (node (?P ! he))"
        using k by blast
      from reach_children(2) [OF le2 one ks] cl_sub every
      show "\<forall>x\<in>set (reach (then_node s)) \<union> set (reach (otherwise s)).
            \<exists>k. ?b \<le> k \<and> k < length ?P \<and> node (?P ! k) = x"
        by blast
    qed
    have lp: "(\<exists>k hb.
            ?b \<le> k \<and> k < length ?P \<and> node (?P ! k) = s \<and>
            exec_class (?P ! k) = LoopExecutor \<and>
            loopBody (?P ! k) = Some hb \<and> ?b \<le> hb \<and> hb < length ?P \<and>
            body s = Some (node (?P ! hb))) \<and>
         (\<forall>x\<in>set (reach (body s)).
            \<exists>k. ?b \<le> k \<and> k < length ?P \<and> node (?P ! k) = x)"
      if kl: "kind s = kLoop"
    proof
      from w k(3) one kl obtain hb where
        "loopBody (?P ! k) = Some hb" "?b \<le> hb" "hb < length ?P"
        "body s = Some (node (?P ! hb))"
        unfolding wired_def by auto
      moreover from cl kl have "exec_class (?P ! k) = LoopExecutor" by simp
      ultimately show "\<exists>k hb.
            ?b \<le> k \<and> k < length ?P \<and> node (?P ! k) = s \<and>
            exec_class (?P ! k) = LoopExecutor \<and>
            loopBody (?P ! k) = Some hb \<and> ?b \<le> hb \<and> hb < length ?P \<and>
            body s = Some (node (?P ! hb))"
        using k by blast
      from reach_children(3) [OF le2 one kl] cl_sub every
      show "\<forall>x\<in>set (reach (body s)).
            \<exists>k. ?b \<le> k \<and> k < length ?P \<and> node (?P ! k) = x"
        by blast
    qed
    from sel lp show ?thesis by blast
  qed
  from tot main show ?thesis by blast
qed

theorem control_bodies_attached_witness:
  "aborts (Some select_plan) = {} \<and>
   inj_on id_node (set (reach (Some select_plan))) \<and>
   create (Some select_plan) empty_qctx = Inr (0, select_built) \<and>
   select_plan \<in> set (reach (Some select_plan)) \<and> length (dependencies select_plan) = 1 \<and>
   kind select_plan = kSelect \<and>
   (\<exists>k ht he.
      k < length (objPool select_built) \<and> node (objPool select_built ! k) = select_plan \<and>
      exec_class (objPool select_built ! k) = SelectExecutor \<and>
      thenBody (objPool select_built ! k) = Some ht \<and> ht < length (objPool select_built) \<and>
      then_node select_plan = Some (node (objPool select_built ! ht)) \<and>
      elseBody (objPool select_built ! k) = Some he \<and> he < length (objPool select_built) \<and>
      otherwise select_plan = Some (node (objPool select_built ! he)))"
proof -
  have a: "aborts (Some select_plan) = {}" by (simp add: ev2)
  have b: "inj_on id_node (set (reach (Some select_plan)))"
    unfolding inj_on_set_remdups by (simp add: ev2)
  have c: "create (Some select_plan) empty_qctx = Inr (0, select_built)"
    by (simp add: ev2 select_built_def)
  have d: "select_plan \<in> set (reach (Some select_plan))" "length (dependencies select_plan) = 1"
    "kind select_plan = kSelect"
    by (simp_all add: ev2)
  from control_bodies_attached [of select_plan empty_qctx 0 select_built select_plan] a b c d
  show ?thesis by simp blast
qed

text \<open>
  Claim C8. After the constructor of an executor the execution context has the slot
  of the node's output variable, and keeps every slot it had with its content. Every
  returning call of \<^verbatim>\<open>makeExecutor\<close> keeps every slot with its content, and the slot of
  every executor it added exists. When \<^verbatim>\<open>create\<close> returns on a plan with distinct
  identities, the slot of the output variable of every reached node exists.
\<close>

theorem output_slots_declared:
  "exist (ectx (snd (Executor_init cl n q))) (outputVar n) \<and>
   ectx q \<subseteq>\<^sub>m ectx (snd (Executor_init cl n q)) \<and>
   (makeExecutor c q v = Inr (h, q', v') \<longrightarrow>
      ectx q \<subseteq>\<^sub>m ectx q' \<and>
      (\<forall>k. length (objPool q) \<le> k \<and> k < length (objPool q') \<longrightarrow>
         exist (ectx q') (outputVar (node (objPool q' ! k))))) \<and>
   (inj_on id_node (set (reach (Some root))) \<and> create (Some root) q = Inr (h, q') \<longrightarrow>
      ectx q \<subseteq>\<^sub>m ectx q' \<and>
      (\<forall>x\<in>set (reach (Some root)). exist (ectx q') (outputVar x)))"
proof -
  have 1: "exist (ectx (snd (Executor_init cl n q))) (outputVar n)"
    by (simp add: Executor_init_def exist_def initVar_def)
  have 2: "ectx q \<subseteq>\<^sub>m ectx (snd (Executor_init cl n q))"
    by (auto simp: Executor_init_def exist_def initVar_def map_le_def)
  have 3: "ectx q \<subseteq>\<^sub>m ectx q' \<and>
      (\<forall>k. length (objPool q) \<le> k \<and> k < length (objPool q') \<longrightarrow>
         exist (ectx q') (outputVar (node (objPool q' ! k))))"
    if "makeExecutor c q v = Inr (h, q', v')"
    using build_frame [OF that] unfolding frame_def exist_def by blast
  have 4: "ectx q \<subseteq>\<^sub>m ectx q' \<and>
      (\<forall>x\<in>set (reach (Some root)). exist (ectx q') (outputVar x))"
    if inj: "inj_on id_node (set (reach (Some root)))"
      and run: "create (Some root) q = Inr (h, q')"
  proof
    from run obtain v' where
      mk: "makeExecutor (Some root) q \<lparr>entries = Map.empty, calls = []\<rparr> = Inr (h, q', v')"
      unfolding create_Inr by blast
    note f = build_frame [OF mk]
    from f show "ectx q \<subseteq>\<^sub>m ectx q'" unfolding frame_def by blast
    show "\<forall>x\<in>set (reach (Some root)). exist (ectx q') (outputVar x)"
    proof
      fix x assume "x \<in> set (reach (Some root))"
      from create_reached_known [OF inj run this] obtain k where
        "length (objPool q) \<le> k" "k < length (objPool q')" "node (objPool q' ! k) = x"
        by blast
      with f show "exist (ectx q') (outputVar x)" unfolding frame_def exist_def by blast
    qed
  qed
  from 1 2 3 4 show ?thesis by blast
qed

theorem output_slots_declared_witness:
  "inj_on id_node (set (reach (Some diamond))) \<and>
   create (Some diamond) empty_qctx = Inr (0, diamond_built) \<and>
   map outputVar (reach (Some diamond)) = [''out'', ''left'', ''scan'', ''right'', ''scan''] \<and>
   exist (ectx diamond_built) ''out'' \<and> exist (ectx diamond_built) ''left'' \<and>
   exist (ectx diamond_built) ''scan'' \<and> exist (ectx diamond_built) ''right''"
proof -
  have a: "inj_on id_node (set (reach (Some diamond)))"
    unfolding inj_on_set_remdups by (simp add: ev2)
  have b: "create (Some diamond) empty_qctx = Inr (0, diamond_built)"
    by (simp add: ev2)
  have c: "map outputVar (reach (Some diamond)) = [''out'', ''left'', ''scan'', ''right'', ''scan'']"
    by (simp add: ev2)
  from output_slots_declared [of StartExecutor scan empty_qctx "Some diamond" fresh_visited
      0 diamond_built fresh_visited diamond] a b
  have "\<forall>x\<in>set (reach (Some diamond)). exist (ectx diamond_built) (outputVar x)"
    by blast
  then have "\<forall>y\<in>set (map outputVar (reach (Some diamond))). exist (ectx diamond_built) y"
    by simp
  then show ?thesis unfolding c using a b c by simp
qed

end
